theory Spec2Isabelle
  imports Complex_Main "HOL-Library.Sublist"
begin

section \<open>Python strings\<close>

text \<open>
  A Python \<open>str\<close> is modelled as a \<open>string\<close>, each \<open>char\<close> standing for one code
  point below 256. On that range \<open>str.isspace\<close>, and the class \<open>\s\<close> of the \<open>re\<close>
  module on \<open>str\<close> patterns, hold exactly for the twelve code points listed here.
\<close>

definition is_space :: "char \<Rightarrow> bool" where
  "is_space c = (c \<in> set [CHR 0x09, CHR 0x0A, CHR 0x0B, CHR 0x0C, CHR 0x0D,
                             CHR 0x1C, CHR 0x1D, CHR 0x1E, CHR 0x1F, CHR 0x20,
                             CHR 0x85, CHR 0xA0])"

text \<open>\<open>s.strip()\<close>: whitespace removed at both ends.\<close>

definition strip :: "string \<Rightarrow> string" where
  "strip s = rev (dropWhile is_space (rev (dropWhile is_space s)))"

text \<open>The text \<open>s\<close> holds whitespace characters only.\<close>

definition whitespace :: "string \<Rightarrow> bool" where
  "whitespace s = list_all is_space s"

text \<open>\<open>s[start:end]\<close> for \<open>0 \<le> start\<close>, \<open>0 \<le> end\<close> (an empty slice when \<open>end \<le> start\<close>).\<close>

definition slice :: "string \<Rightarrow> nat \<Rightarrow> nat \<Rightarrow> string" where
  "slice s start end = take (end - start) (drop start s)"

text \<open>\<open>sep.join(xs)\<close>.\<close>

fun str_join :: "string \<Rightarrow> string list \<Rightarrow> string" where
  "str_join sep [] = []"
| "str_join sep [x] = x"
| "str_join sep (x # y # ys) = x @ sep @ str_join sep (y # ys)"

text \<open>\<open>str(n)\<close> for a non-negative integer: its decimal digits.\<close>

definition digit_char :: "nat \<Rightarrow> char" where
  "digit_char d = ''0123456789'' ! d"

fun str_nat :: "nat \<Rightarrow> string" where
  "str_nat n = (if n < 10 then [digit_char n] else str_nat (n div 10) @ [digit_char (n mod 10)])"

declare str_nat.simps [simp del]

section \<open>The chunk packer: \<open>SECDocumentReasoner.chunk_summaries\<close>\<close>

text \<open>
  \<open>all_summaries.split('=== ')\<close>: the pieces between the non-overlapping occurrences of
  the marker, found from left to right. The result always has at least one piece; the
  \<open>[]\<close> branch of the \<open>case\<close> is never taken.
\<close>

function split_sections :: "string \<Rightarrow> string list" where
  "split_sections [] = [[]]"
| "split_sections (c # cs) =
     (if prefix ''=== '' (c # cs) then [] # split_sections (drop 4 (c # cs))
      else (case split_sections cs of
              [] \<Rightarrow> [[c]]
            | piece # pieces \<Rightarrow> (c # piece) # pieces))"
  by pat_completeness auto
termination
  by (relation "measure length") auto

declare split_sections.simps [simp del]

text \<open>
  \<open>section_text = f"=== {section}" if section != sections[0] else section\<close>: the
  comparison is by value with the first piece.
\<close>

definition section_text :: "string \<Rightarrow> string \<Rightarrow> string" where
  "section_text first section = (if section \<noteq> first then ''=== '' @ section else section)"

text \<open>
  The \<open>for section in sections\<close> loop. The state is the pair of \<open>chunks\<close> and
  \<open>current_chunk\<close>; \<open>first\<close> is \<open>sections[0]\<close>.
\<close>

fun chunk_loop :: "int \<Rightarrow> string \<Rightarrow> string list \<Rightarrow> string list \<times> string \<Rightarrow> string list \<times> string" where
  "chunk_loop chunk_size first [] st = st"
| "chunk_loop chunk_size first (section # rest) (chunks, current_chunk) =
     (if strip section = [] then chunk_loop chunk_size first rest (chunks, current_chunk)
      else
        let stext = section_text first section in
        if int (length (current_chunk @ stext)) \<le> chunk_size
        then chunk_loop chunk_size first rest (chunks, current_chunk @ stext)
        else chunk_loop chunk_size first rest
               (if current_chunk \<noteq> [] then chunks @ [strip current_chunk] else chunks, stext))"

definition chunk_summaries :: "string \<Rightarrow> int \<Rightarrow> string list" where
  "chunk_summaries all_summaries chunk_size =
     (if int (length all_summaries) \<le> chunk_size then [all_summaries]
      else
        let sections = split_sections all_summaries;
            (chunks, current_chunk) = chunk_loop chunk_size (hd sections) sections ([], [])
        in if current_chunk \<noteq> [] then chunks @ [strip current_chunk] else chunks)"

text \<open>
  The blocks of the packer: the value \<open>section_text\<close> takes in each iteration of the
  loop that does not \<open>continue\<close>, in order.
\<close>

definition serialized_blocks :: "string \<Rightarrow> string list" where
  "serialized_blocks all_summaries =
     (let sections = split_sections all_summaries
      in map (section_text (hd sections)) (filter (\<lambda>section. strip section \<noteq> []) sections))"

text \<open>
  A group of blocks is well sized for a limit when it is not empty and either its
  serialized size is within the limit or it is one block that alone exceeds the limit.
\<close>

definition well_sized :: "int \<Rightarrow> string list \<Rightarrow> bool" where
  "well_sized limit g =
     (g \<noteq> [] \<and> (int (length (concat g)) \<le> limit \<or> (\<exists>b. g = [b] \<and> limit < int (length b))))"

text \<open>
  In a text all of whose sections hold whitespace only, every \<open>=\<close> belongs to a
  marker, so it is followed by another \<open>=\<close> or by the space that ends the marker.
\<close>

fun marker_shaped :: "string \<Rightarrow> bool" where
  "marker_shaped (a # b # cs) =
     ((a = CHR ''='' \<longrightarrow> b = CHR ''='' \<or> b = CHR '' '') \<and> marker_shaped (b # cs))"
| "marker_shaped [a] = (a \<noteq> CHR ''='')"
| "marker_shaped [] = True"

section \<open>The segmenter: \<open>parse_10k_parts_and_items\<close>\<close>

subsection \<open>Character classes of the two patterns\<close>

text \<open>
  Both patterns are compiled with \<open>re.IGNORECASE | re.MULTILINE\<close>. On code points below
  256: \<open>\d\<close> is the ten ASCII digits, \<open>[A-Z]\<close> the ASCII letters of either case,
  \<open>[IVXLC]\<close> those five letters in either case, a literal letter of the pattern matches
  its two ASCII cases, and \<open>.\<close> is every character but the line feed.
\<close>

definition nl :: char where
  "nl = CHR 0x0A"

definition is_digit :: "char \<Rightarrow> bool" where
  "is_digit c = (c \<in> set ''0123456789'')"

definition is_letter :: "char \<Rightarrow> bool" where
  "is_letter c = (c \<in> set ''ABCDEFGHIJKLMNOPQRSTUVWXYZabcdefghijklmnopqrstuvwxyz'')"

definition is_roman :: "char \<Rightarrow> bool" where
  "is_roman c = (c \<in> set ''IVXLCivxlc'')"

text \<open>
  \<open>str.upper\<close>, one character at a time. It is applied to the text of a Part header
  only, which holds ASCII letters and whitespace, and there it is exact.
\<close>

definition upper_char :: "char \<Rightarrow> char" where
  "upper_char c =
     (case map_of (zip ''abcdefghijklmnopqrstuvwxyz'' ''ABCDEFGHIJKLMNOPQRSTUVWXYZ'') c of
        Some u \<Rightarrow> u
      | None \<Rightarrow> c)"

definition upper :: "string \<Rightarrow> string" where
  "upper s = map upper_char s"

text \<open>The upper-case ASCII word \<open>w\<close> matches, ignoring case, at the front of \<open>s\<close>.\<close>

definition ci_prefix :: "string \<Rightarrow> string \<Rightarrow> bool" where
  "ci_prefix w s = (length w \<le> length s \<and> upper (take (length w) s) = w)"

subsection \<open>One match attempt at a line start\<close>

text \<open>
  \<open>^\s*(PART\s+[IVXLC]+)\s*$\<close>, tried on the text \<open>s\<close> that begins at a position where
  \<open>^\<close> holds. The result is the length of the whole match and the text of group 1.

  Each greedy repetition before the last is followed by an element that its own class
  excludes (a letter after whitespace, whitespace after the numeral), so only its longest
  run can lead to a match. The final \<open>\s*\<close> is followed by \<open>$\<close>, which in MULTILINE
  mode holds at the end of the text and just before a line feed: the engine gives
  whitespace back until the match ends at the end of the text or before the last line
  feed of the run.
\<close>

definition match_part :: "string \<Rightarrow> (nat \<times> string) option" where
  "match_part s =
     (let ws1 = takeWhile is_space s; r1 = dropWhile is_space s in
      if \<not> ci_prefix ''PART'' r1 then None
      else
        let r2 = drop 4 r1; ws2 = takeWhile is_space r2; r3 = dropWhile is_space r2 in
        if ws2 = [] then None
        else
          let rom = takeWhile is_roman r3; r4 = dropWhile is_roman r3 in
          if rom = [] then None
          else
            let ws3 = takeWhile is_space r4; r5 = dropWhile is_space r4;
                g = take 4 r1 @ ws2 @ rom
            in if r5 = [] then Some (length s, g)
               else if nl \<in> set ws3
               then Some (length ws1 + length g
                          + (length (dropWhile (\<lambda>c. c \<noteq> nl) (rev ws3)) - 1), g)
               else None)"

text \<open>
  \<open>^\s*(Item\s+\d+[A-Z]?\.?\s+.+?)(?=\n|$)\<close>, in the same way. The optional letter and
  the optional dot are taken whenever they are present, since what follows them must be
  whitespace. The last \<open>\s+\<close> may run over line feeds; it is followed by the lazy
  \<open>.+?\<close>, which needs one character other than a line feed and then stops at the
  first line feed or at the end of the text. When the whitespace run is followed by
  another character the title begins there. When the run reaches the end of the text,
  the engine gives whitespace back until the character given back is not a line feed,
  keeping at least one whitespace character for \<open>\s+\<close>; that single character is then
  what \<open>.+?\<close> matches.
\<close>

definition match_item :: "string \<Rightarrow> (nat \<times> string) option" where
  "match_item s =
     (let ws1 = takeWhile is_space s; r1 = dropWhile is_space s in
      if \<not> ci_prefix ''ITEM'' r1 then None
      else
        let r2 = drop 4 r1; ws2 = takeWhile is_space r2; r3 = dropWhile is_space r2 in
        if ws2 = [] then None
        else
          let digs = takeWhile is_digit r3; r4 = dropWhile is_digit r3 in
          if digs = [] then None
          else
            let letter = (if r4 \<noteq> [] \<and> is_letter (hd r4) then 1 else 0);
                r5 = drop letter r4;
                dot = (if r5 \<noteq> [] \<and> hd r5 = CHR ''.'' then 1 else 0);
                r6 = drop dot r5;
                ws3 = takeWhile is_space r6; r7 = dropWhile is_space r6;
                head = 4 + length ws2 + length digs + letter + dot
            in if ws3 = [] then None
               else if r7 \<noteq> []
               then (let glen = head + length ws3 + length (takeWhile (\<lambda>c. c \<noteq> nl) r7)
                     in Some (length ws1 + glen, take glen r1))
               else (case filter (\<lambda>w. ws3 ! w \<noteq> nl) [1..<length ws3] of
                       [] \<Rightarrow> None
                     | w # ws \<Rightarrow> (let glen = head + last (w # ws) + 1
                                 in Some (length ws1 + glen, take glen r1))))"

datatype pattern = parts_pattern | items_pattern

fun match_at :: "pattern \<Rightarrow> string \<Rightarrow> (nat \<times> string) option" where
  "match_at parts_pattern s = match_part s"
| "match_at items_pattern s = match_item s"

lemma length_takeWhile_dropWhile:
  "length (takeWhile P xs) + length (dropWhile P xs) = length xs"
  by (induction xs) auto

lemma ci_prefix_length: "ci_prefix w s \<Longrightarrow> length w \<le> length s"
  by (simp add: ci_prefix_def)

lemma match_part_length:
  assumes "match_part s = Some (len, g)"
  shows "0 < len \<and> len \<le> length s"
proof -
  define ws1 where "ws1 = takeWhile is_space s"
  define r1 where "r1 = dropWhile is_space s"
  define r2 where "r2 = drop 4 r1"
  define ws2 where "ws2 = takeWhile is_space r2"
  define r3 where "r3 = dropWhile is_space r2"
  define rom where "rom = takeWhile is_roman r3"
  define r4 where "r4 = dropWhile is_roman r3"
  define ws3 where "ws3 = takeWhile is_space r4"
  define r5 where "r5 = dropWhile is_space r4"
  define k where "k = length (dropWhile (\<lambda>c. c \<noteq> nl) (rev ws3)) - 1"
  note defs = ws1_def r1_def r2_def ws2_def r3_def rom_def r4_def ws3_def r5_def k_def
  have pre: "ci_prefix ''PART'' r1"
    using assms unfolding match_part_def Let_def defs [symmetric]
    by (auto split: if_splits)
  have l1: "length ws1 + length r1 = length s"
    unfolding ws1_def r1_def by (rule length_takeWhile_dropWhile)
  have l2: "4 + length r2 = length r1"
    using ci_prefix_length [OF pre] unfolding r2_def by simp
  have l3: "length ws2 + length r3 = length r2"
    unfolding ws2_def r3_def by (rule length_takeWhile_dropWhile)
  have l4: "length rom + length r4 = length r3"
    unfolding rom_def r4_def by (rule length_takeWhile_dropWhile)
  have l5: "length ws3 + length r5 = length r4"
    unfolding ws3_def r5_def by (rule length_takeWhile_dropWhile)
  have lk: "k \<le> length ws3"
    unfolding k_def using length_dropWhile_le [of "\<lambda>c. c \<noteq> nl" "rev ws3"] by simp
  have "len = length s \<or> len = length ws1 + (4 + length ws2 + length rom) + k"
    using assms l2 unfolding match_part_def Let_def defs [symmetric]
    by (auto split: if_splits)
  then show ?thesis
    using l1 l2 l3 l4 l5 lk by auto
qed

lemma match_item_length:
  assumes "match_item s = Some (len, g)"
  shows "0 < len \<and> len \<le> length s"
proof -
  define ws1 where "ws1 = takeWhile is_space s"
  define r1 where "r1 = dropWhile is_space s"
  define r2 where "r2 = drop 4 r1"
  define ws2 where "ws2 = takeWhile is_space r2"
  define r3 where "r3 = dropWhile is_space r2"
  define digs where "digs = takeWhile is_digit r3"
  define r4 where "r4 = dropWhile is_digit r3"
  define letter :: nat where "letter = (if r4 \<noteq> [] \<and> is_letter (hd r4) then 1 else 0)"
  define r5 where "r5 = drop letter r4"
  define dot :: nat where "dot = (if r5 \<noteq> [] \<and> hd r5 = CHR ''.'' then 1 else 0)"
  define r6 where "r6 = drop dot r5"
  define ws3 where "ws3 = takeWhile is_space r6"
  define r7 where "r7 = dropWhile is_space r6"
  define hd_len where "hd_len = 4 + length ws2 + length digs + letter + dot"
  note defs = ws1_def r1_def r2_def ws2_def r3_def digs_def r4_def letter_def r5_def
    dot_def r6_def ws3_def r7_def hd_len_def
  have pre: "ci_prefix ''ITEM'' r1"
    using assms unfolding match_item_def Let_def defs [symmetric]
    by (auto split: if_splits)
  have l1: "length ws1 + length r1 = length s"
    unfolding ws1_def r1_def by (rule length_takeWhile_dropWhile)
  have l2: "4 + length r2 = length r1"
    using ci_prefix_length [OF pre] unfolding r2_def by simp
  have l3: "length ws2 + length r3 = length r2"
    unfolding ws2_def r3_def by (rule length_takeWhile_dropWhile)
  have l4: "length digs + length r4 = length r3"
    unfolding digs_def r4_def by (rule length_takeWhile_dropWhile)
  have l5: "letter + length r5 = length r4"
    unfolding r5_def letter_def by (cases r4) auto
  have l6: "dot + length r6 = length r5"
    unfolding r6_def dot_def by (cases r5) auto
  have l7: "length ws3 + length r7 = length r6"
    unfolding ws3_def r7_def by (rule length_takeWhile_dropWhile)
  have lt: "length (takeWhile (\<lambda>c. c \<noteq> nl) r7) \<le> length r7"
    by (rule length_takeWhile_le)
  have lw: "last (w # ws) < length ws3"
    if "filter (\<lambda>w. ws3 ! w \<noteq> nl) [1..<length ws3] = w # ws" for w ws
  proof -
    have "last (w # ws) \<in> set (filter (\<lambda>w. ws3 ! w \<noteq> nl) [1..<length ws3])"
      unfolding that by (rule last_in_set) simp
    then show ?thesis by simp
  qed
  have "len = length ws1 + (hd_len + length ws3 + length (takeWhile (\<lambda>c. c \<noteq> nl) r7))
        \<or> (\<exists>w ws. filter (\<lambda>w. ws3 ! w \<noteq> nl) [1..<length ws3] = w # ws
              \<and> r7 = [] \<and> len = length ws1 + (hd_len + last (w # ws) + 1))"
    using assms unfolding match_item_def Let_def defs [symmetric]
    by (auto split: if_splits list.splits)
  then show ?thesis
    using l1 l2 l3 l4 l5 l6 l7 lt lw unfolding hd_len_def by fastforce
qed

lemma match_at_length: "match_at p s = Some (len, g) \<Longrightarrow> 0 < len \<and> len \<le> length s"
  by (cases p) (auto dest: match_part_length match_item_length)

subsection \<open>\<open>pattern.finditer\<close>\<close>

text \<open>
  The scan for non-overlapping matches from left to right. \<open>bol\<close> tells whether \<open>^\<close>
  holds at the current position \<open>pos\<close> (the start of the text, or the character before
  is a line feed) and \<open>s\<close> is the text from \<open>pos\<close> on. After a match the scan goes on
  at its end; where no match starts, at the next position. A match of either pattern is
  never empty (\<open>match_at_length\<close>).
\<close>

record rmatch =
  m_start :: nat
  m_end :: nat
  m_group :: string

function finditer_from :: "pattern \<Rightarrow> bool \<Rightarrow> nat \<Rightarrow> string \<Rightarrow> rmatch list" where
  "finditer_from p bol pos s =
     (case (if bol then match_at p s else None) of
        Some (len, g) \<Rightarrow>
          \<lparr>m_start = pos, m_end = pos + len, m_group = g\<rparr>
            # finditer_from p (last (take len s) = nl) (pos + len) (drop len s)
      | None \<Rightarrow>
          (case s of
             [] \<Rightarrow> []
           | c # cs \<Rightarrow> finditer_from p (c = nl) (Suc pos) cs))"
  by pat_completeness auto
termination
  by (relation "measure (\<lambda>(p, bol, pos, s). length s)")
     (auto split: if_splits dest: match_at_length)

declare finditer_from.simps [simp del]

definition finditer :: "pattern \<Rightarrow> string \<Rightarrow> rmatch list" where
  "finditer p text = finditer_from p True 0 text"

subsection \<open>Part slices\<close>

text \<open>
  \<open>raw_parts\<close>: for every match of the Part pattern, \<open>group(1).upper().strip()\<close> and
  \<open>match.start()\<close>.
\<close>

definition raw_parts :: "string \<Rightarrow> (string \<times> nat) list" where
  "raw_parts text =
     map (\<lambda>m. (strip (upper (m_group m)), m_start m)) (finditer parts_pattern text)"

definition valid_order :: "string list" where
  "valid_order = [''PART I'', ''PART II'', ''PART III'', ''PART IV'']"

text \<open>
  The loop \<open>for i in range(len(raw_parts))\<close>, as a recursion over the entries from index
  \<open>i\<close> on: \<open>end\<close> is the start of the entry that follows, or \<open>len(text)\<close> for the
  last one, and \<open>part_blocks[title] = text[start:end]\<close> stores the slice under the label,
  replacing what an earlier entry with the same label stored.
\<close>

fun slice_parts :: "string \<Rightarrow> (string \<times> nat) list \<Rightarrow> (string \<rightharpoonup> string) \<Rightarrow> (string \<rightharpoonup> string)" where
  "slice_parts text [] part_blocks = part_blocks"
| "slice_parts text ((title, start) # rest) part_blocks =
     (let end = (case rest of [] \<Rightarrow> length text | (_, next_start) # _ \<Rightarrow> next_start)
      in slice_parts text rest
           (if title \<in> set valid_order then part_blocks(title \<mapsto> slice text start end)
            else part_blocks))"

definition part_blocks :: "string \<Rightarrow> (string \<rightharpoonup> string)" where
  "part_blocks text = slice_parts text (raw_parts text) Map.empty"

subsection \<open>Items\<close>

text \<open>
  \<open>re.sub(r'\s{2,}', ' ', s)\<close>: every maximal run of two or more whitespace characters
  becomes one space; a single whitespace character stays as it is.
\<close>

function collapse_ws :: "string \<Rightarrow> string" where
  "collapse_ws [] = []"
| "collapse_ws (c # cs) =
     (if is_space c \<and> cs \<noteq> [] \<and> is_space (hd cs)
      then CHR '' '' # collapse_ws (dropWhile is_space cs)
      else c # collapse_ws cs)"
  by pat_completeness auto
termination
  by (relation "measure length") (auto simp: less_Suc_eq_le length_dropWhile_le)

text \<open>
  \<open>s.replace('..', '.')\<close>: one pass from left to right over the non-overlapping
  occurrences of two dots.
\<close>

fun replace_dd :: "string \<Rightarrow> string" where
  "replace_dd (a # b # cs) =
     (if a = CHR ''.'' \<and> b = CHR ''.'' then CHR ''.'' # replace_dd cs
      else a # replace_dd (b # cs))"
| "replace_dd cs = cs"

text \<open>
  The title of a match: \<open>group(1).strip()\<close>, then
  \<open>re.sub(r'\s{2,}', ' ', item_title).replace('..', '.').strip()\<close>.
\<close>

definition item_title :: "rmatch \<Rightarrow> string" where
  "item_title m = strip (replace_dd (collapse_ws (strip (m_group m))))"

text \<open>
  The content of match \<open>j\<close>: \<open>part_text[item_start:item_end].strip()\<close>, from the end of
  the match to the start of the match that follows (\<open>rest\<close> holds the matches after
  \<open>j\<close>), or to the end of the part for the last one.
\<close>

definition item_content :: "string \<Rightarrow> rmatch \<Rightarrow> rmatch list \<Rightarrow> string" where
  "item_content part_text m rest =
     (let item_start = m_end m;
          item_end = (case rest of [] \<Rightarrow> length part_text | m' # _ \<Rightarrow> m_start m')
      in strip (slice part_text item_start item_end))"

text \<open>
  A Python \<open>dict\<close> keeps its keys in insertion order, and \<open>d[k] = v\<close> on a key that is
  present replaces the value where the key stands. It is an association list with
  distinct keys.
\<close>

fun dict_set :: "'k \<Rightarrow> 'v \<Rightarrow> ('k \<times> 'v) list \<Rightarrow> ('k \<times> 'v) list" where
  "dict_set k v [] = [(k, v)]"
| "dict_set k v ((k', v') # d) =
     (if k' = k then (k, v) # d else (k', v') # dict_set k v d)"

text \<open>The loop \<open>for j in range(len(item_matches))\<close> filling \<open>parsed[part]\<close>.\<close>

fun items_loop :: "string \<Rightarrow> rmatch list \<Rightarrow> (string \<times> string) list \<Rightarrow> (string \<times> string) list" where
  "items_loop part_text [] items = items"
| "items_loop part_text (m # rest) items =
     items_loop part_text rest (dict_set (item_title m) (item_content part_text m rest) items)"

text \<open>
  The loop \<open>for part in valid_order\<close>. \<open>parsed[part] = {}\<close> followed by the item loop
  on that dictionary is the one assignment of the filled dictionary.
\<close>

fun parts_loop :: "(string \<rightharpoonup> string) \<Rightarrow> string list
    \<Rightarrow> (string \<times> (string \<times> string) list) list \<Rightarrow> (string \<times> (string \<times> string) list) list" where
  "parts_loop blocks [] parsed = parsed"
| "parts_loop blocks (part # rest) parsed =
     (case blocks part of
        None \<Rightarrow> parts_loop blocks rest parsed
      | Some part_text \<Rightarrow>
          (let item_matches = finditer items_pattern part_text
           in if item_matches = [] then parts_loop blocks rest parsed
              else parts_loop blocks rest
                     (dict_set part (items_loop part_text item_matches []) parsed)))"

definition parse_10k_parts_and_items :: "string \<Rightarrow> (string \<times> (string \<times> string) list) list" where
  "parse_10k_parts_and_items text = parts_loop (part_blocks text) valid_order []"

text \<open>
  The pairs of title and content that the iterations of the item loop assign, in order.
\<close>

fun item_entries :: "string \<Rightarrow> rmatch list \<Rightarrow> (string \<times> string) list" where
  "item_entries part_text [] = []"
| "item_entries part_text (m # rest) =
     (item_title m, item_content part_text m rest) # item_entries part_text rest"

text \<open>Two whitespace characters stand next to each other in \<open>s\<close>.\<close>

definition adjacent_ws :: "string \<Rightarrow> bool" where
  "adjacent_ws s = (\<exists>a b. is_space a \<and> is_space b \<and> sublist [a, b] s)"

text \<open>
  Two abbreviations for the statements below: whether the slice stored for a part has an
  item match, and the item dictionary built from that slice.
\<close>

definition has_items :: "(string \<rightharpoonup> string) \<Rightarrow> string \<Rightarrow> bool" where
  "has_items blocks part =
     (case blocks part of None \<Rightarrow> False | Some part_text \<Rightarrow> finditer items_pattern part_text \<noteq> [])"

definition items_of :: "(string \<rightharpoonup> string) \<Rightarrow> string \<Rightarrow> (string \<times> string) list" where
  "items_of blocks part =
     items_loop (the (blocks part)) (finditer items_pattern (the (blocks part))) []"

section \<open>The reasoning pipeline: \<open>generate_reasoning\<close>\<close>

subsection \<open>The generation service\<close>

text \<open>
  One call is \<open>requests.post(f"{self.ollama_url}/api/generate", json=...)\<close>, then
  \<open>response.raise_for_status()\<close> and \<open>response.json()["response"]\<close>. The service is
  a parameter: from the requests already sent in this run and the request at hand it
  gives either the response text or the exception raised on the way (no connection, a
  timeout, an HTTP status, a body that is not the expected JSON). Every one of them is an
  \<open>Exception\<close>, which is what the two \<open>except\<close> clauses catch. The calls made are
  recorded in order in the list \<open>calls\<close>; what the source prints on the console is
  left out.
\<close>

datatype gen_error = ConnectionError | Timeout | HTTPError nat | MalformedResponse

datatype py_error = IndexError

record request =
  r_url :: string
  r_model :: string
  r_prompt :: string
  r_stream :: bool
  r_temperature :: rat
  r_num_predict :: int

type_synonym service = "request list \<Rightarrow> request \<Rightarrow> gen_error + string"

text \<open>
  Three services for concrete runs: one that answers every call with the same response,
  one that fails every call with the same error, and one that answers the first \<open>n\<close>
  calls and fails from then on.
\<close>

definition answering :: "string \<Rightarrow> service" where
  "answering response calls req = Inr response"

definition failing :: "gen_error \<Rightarrow> service" where
  "failing e calls req = Inl e"

definition failing_after :: "nat \<Rightarrow> string \<Rightarrow> gen_error \<Rightarrow> service" where
  "failing_after n response e calls req = (if length calls < n then Inr response else Inl e)"

record reasoner =
  ollama_url :: string
  embedding_model :: string

text \<open>The default arguments of \<open>__init__\<close>.\<close>

definition default_reasoner :: reasoner where
  "default_reasoner =
     \<lparr>ollama_url = ''http://localhost:11434'', embedding_model = ''gemma3:1b''\<rparr>"

subsection \<open>\<open>generate_reasoning_for_chunk\<close>\<close>

definition chunk_focus :: "nat \<Rightarrow> string" where
  "chunk_focus chunk_num =
     (if chunk_num = 1
      then ''Focus primarily on: Business Model Analysis and Financial Health Assessment''
      else if chunk_num = 2
      then ''Focus primarily on: Risk Assessment and Growth Opportunities''
      else ''Focus on: Investment Thesis and synthesis of previous analysis'')"

definition chunk_prompt :: "string \<Rightarrow> string \<Rightarrow> nat \<Rightarrow> nat \<Rightarrow> string" where
  "chunk_prompt company chunk chunk_num total_chunks =
     concat
       [''\<newline>'',
        ''        Based on this portion of the comprehensive 10-K filing summaries for '' @ company @ '' (Part '' @ str_nat chunk_num @ '' of '' @ str_nat total_chunks @ ''), provide detailed analysis that includes:\<newline>'',
        ''        \<newline>'',
        ''        1. **Business Model Analysis**: How does this company make money and what are their core competitive advantages?\<newline>'',
        ''        2. **Financial Health Assessment**: What do the financial metrics and performance indicators tell us?\<newline>'',
        ''        3. **Risk Assessment**: What are the most significant risks facing this company?\<newline>'',
        ''        4. **Growth Opportunities**: What potential growth drivers and strategic initiatives are mentioned?\<newline>'',
        ''        5. **Investment Thesis**: Based on available information, what would be key investment considerations?\<newline>'',
        ''        \<newline>'',
        ''        '' @ chunk_focus chunk_num @ ''\<newline>'',
        ''        \<newline>'',
        ''        Please provide specific, actionable insights that synthesize information rather than just repeating bullet points.\<newline>'',
        ''        \<newline>'',
        ''        Company: '' @ company @ ''\<newline>'',
        ''        10-K Summary Data (Part '' @ str_nat chunk_num @ ''/'' @ str_nat total_chunks @ ''):\<newline>'',
        ''        '' @ chunk @ ''\<newline>'',
        ''        \<newline>'',
        ''        Analysis for Part '' @ str_nat chunk_num @ '':\<newline>'',
        ''        '']"

definition unavailable :: "nat \<Rightarrow> string" where
  "unavailable chunk_num = ''Analysis unavailable for chunk '' @ str_nat chunk_num"

definition chunk_request :: "reasoner \<Rightarrow> string \<Rightarrow> string \<Rightarrow> nat \<Rightarrow> nat \<Rightarrow> int \<Rightarrow> request" where
  "chunk_request self company chunk chunk_num total_chunks max_tokens =
     \<lparr>r_url = ollama_url self @ ''/api/generate'',
      r_model = ''gemma3:1b'',
      r_prompt = chunk_prompt company chunk chunk_num total_chunks,
      r_stream = False,
      r_temperature = 4 / 10,
      r_num_predict = max_tokens\<rparr>"

text \<open>
  The result is the analysis text together with the list of calls extended by the
  request. On success the text is \<open>response.json()["response"].strip()\<close>; on any
  exception it is \<open>f"Analysis unavailable for chunk {chunk_num}"\<close>.
\<close>

definition generate_reasoning_for_chunk ::
    "service \<Rightarrow> reasoner \<Rightarrow> request list \<Rightarrow> string \<Rightarrow> string \<Rightarrow> nat \<Rightarrow> nat \<Rightarrow> int
      \<Rightarrow> string \<times> request list" where
  "generate_reasoning_for_chunk svc self calls company chunk chunk_num total_chunks max_tokens =
     (let req = chunk_request self company chunk chunk_num total_chunks max_tokens
      in (case svc calls req of
            Inr response \<Rightarrow> strip response
          | Inl e \<Rightarrow> unavailable chunk_num,
          calls @ [req]))"

subsection \<open>\<open>generate_reasoning\<close>\<close>

text \<open>
  The loop \<open>for i, chunk in enumerate(chunks, 1)\<close>: the state is \<open>chunk_analyses\<close> and
  the list of calls; \<open>i\<close> is the number of the chunk at the head of the remaining chunks.
\<close>

definition analysis_part :: "nat \<Rightarrow> string \<Rightarrow> string" where
  "analysis_part i analysis = ''=== ANALYSIS PART '' @ str_nat i @ '' ===\<newline>'' @ analysis"

fun analyse_chunks ::
    "service \<Rightarrow> reasoner \<Rightarrow> string \<Rightarrow> nat \<Rightarrow> int \<Rightarrow> nat \<Rightarrow> string list
      \<Rightarrow> string list \<times> request list \<Rightarrow> string list \<times> request list" where
  "analyse_chunks svc self company total_chunks max_tokens i [] st = st"
| "analyse_chunks svc self company total_chunks max_tokens i (chunk # rest) (chunk_analyses, calls) =
     (let (analysis, calls') =
            generate_reasoning_for_chunk svc self calls company chunk i total_chunks max_tokens
      in analyse_chunks svc self company total_chunks max_tokens (Suc i) rest
           (chunk_analyses @ [analysis_part i analysis], calls'))"

definition synthesis_prompt :: "string \<Rightarrow> string \<Rightarrow> string" where
  "synthesis_prompt company combined_analysis =
     concat
       [''\<newline>'',
        ''            Based on the following multi-part analysis of '' @ company @ '', create a comprehensive final synthesis that covers all 5 key areas:\<newline>'',
        ''            \<newline>'',
        ''            1. **Business Model Analysis**: Complete overview of how the company makes money\<newline>'',
        ''            2. **Financial Health Assessment**: Overall financial position and performance\<newline>'',
        ''            3. **Risk Assessment**: All significant risks identified\<newline>'',
        ''            4. **Growth Opportunities**: All growth drivers and strategic initiatives\<newline>'',
        ''            5. **Investment Thesis**: Final recommendation based on complete analysis\<newline>'',
        ''            \<newline>'',
        ''            Previous Analysis Parts:\<newline>'',
        ''            '' @ take 7000 combined_analysis @ ''\<newline>'',
        ''            \<newline>'',
        ''            Comprehensive Final Analysis:\<newline>'',
        ''            '']"

definition synthesis_request :: "reasoner \<Rightarrow> string \<Rightarrow> string \<Rightarrow> int \<Rightarrow> request" where
  "synthesis_request self company combined_analysis max_tokens =
     \<lparr>r_url = ollama_url self @ ''/api/generate'',
      r_model = ''gemma3:1b'',
      r_prompt = synthesis_prompt company combined_analysis,
      r_stream = False,
      r_temperature = 3 / 10,
      r_num_predict = max_tokens * 2\<rparr>"

text \<open>
  The result is the returned text, or the \<open>IndexError\<close> that \<open>chunk_analyses[0]\<close>
  raises on an empty list, together with the calls made.
\<close>

definition generate_reasoning ::
    "service \<Rightarrow> reasoner \<Rightarrow> string \<Rightarrow> string \<Rightarrow> int \<Rightarrow> (py_error + string) \<times> request list" where
  "generate_reasoning svc self company all_summaries max_tokens =
     (let chunks = chunk_summaries all_summaries 6000;
          (chunk_analyses, calls) =
            analyse_chunks svc self company (length chunks) max_tokens 1 chunks ([], [])
      in if length chunks > 1
         then
           (let combined_analysis = str_join ''\<newline>\<newline>'' chunk_analyses;
                req = synthesis_request self company combined_analysis max_tokens
            in (case svc calls req of
                  Inr response \<Rightarrow>
                    Inr (combined_analysis
                         @ ''\<newline>\<newline>=== COMPREHENSIVE SYNTHESIS ===\<newline>''
                         @ strip response)
                | Inl e \<Rightarrow> Inr combined_analysis,
                calls @ [req]))
         else
           (case chunk_analyses of
              [] \<Rightarrow> Inl IndexError
            | first_analysis # _ \<Rightarrow> Inr first_analysis,
            calls))"

subsection \<open>The text that \<open>process_condensed_document\<close> hands to \<open>generate_reasoning\<close>\<close>

text \<open>
  The two nested loops over \<open>condensed_data['sections']\<close> that build
  \<open>all_summaries_text\<close>: a part is its name and its items, an item its title and the
  \<open>summary\<close> field of its data.
\<close>

fun item_lines :: "(string \<times> string) list \<Rightarrow> string" where
  "item_lines [] = []"
| "item_lines ((title, summary) # rest) =
     ''\<newline>--- '' @ title @ '' ---\<newline>'' @ summary @ ''\<newline>'' @ item_lines rest"

fun all_summaries_text :: "(string \<times> (string \<times> string) list) list \<Rightarrow> string" where
  "all_summaries_text [] = []"
| "all_summaries_text ((part_name, items) # rest) =
     ''\<newline>\<newline>=== '' @ part_name @ '' ===\<newline>'' @ item_lines items @ all_summaries_text rest"

section \<open>Facts about strings\<close>

lemma all_dropWhile: "(\<forall>x \<in> set (dropWhile P s). P x) \<longleftrightarrow> (\<forall>x \<in> set s. P x)"
  by (induction s) auto

lemma strip_empty_iff: "strip s = [] \<longleftrightarrow> (\<forall>c \<in> set s. is_space c)"
  by (simp add: strip_def dropWhile_eq_Nil_conv all_dropWhile)

section \<open>Properties of the chunk packer\<close>

subsection \<open>Auxiliary facts\<close>

lemma split_sections_nonempty: "split_sections s \<noteq> []"
  by (induction s rule: split_sections.induct) (auto simp: split_sections.simps split: list.splits)

lemma section_text_nonempty: "strip section \<noteq> [] \<Longrightarrow> section_text first section \<noteq> []"
  by (auto simp: section_text_def strip_def)

lemma concat_nonempty_iff: "\<forall>b \<in> set g. b \<noteq> [] \<Longrightarrow> concat g = [] \<longleftrightarrow> g = []"
  by (cases g) auto

lemma chunk_loop_groups:
  assumes "\<forall>b \<in> set g. b \<noteq> []"
    and "\<forall>x \<in> set gs. well_sized limit x"
    and "g = [] \<or> well_sized limit g"
  shows "\<exists>gs' g'. chunk_loop limit first secs (map (\<lambda>g. strip (concat g)) gs, concat g)
                     = (map (\<lambda>g. strip (concat g)) gs', concat g')
           \<and> (\<forall>b \<in> set g'. b \<noteq> [])
           \<and> (\<forall>x \<in> set gs'. well_sized limit x)
           \<and> (g' = [] \<or> well_sized limit g')
           \<and> concat gs' @ g'
               = concat gs @ g @ map (section_text first) (filter (\<lambda>s. strip s \<noteq> []) secs)"
  using assms
proof (induction secs arbitrary: gs g)
  case Nil
  then show ?case by auto
next
  case (Cons sec rest)
  let ?b = "section_text first sec"
  show ?case
  proof (cases "strip sec = []")
    case True
    then show ?thesis using Cons.IH [OF Cons.prems] by simp
  next
    case blank: False
    then have b: "?b \<noteq> []" by (rule section_text_nonempty)
    show ?thesis
    proof (cases "int (length (concat g @ ?b)) \<le> limit")
      case True
      have 1: "\<forall>x \<in> set (g @ [?b]). x \<noteq> []" using Cons.prems(1) b by auto
      have 3: "g @ [?b] = [] \<or> well_sized limit (g @ [?b])"
        using True by (simp add: well_sized_def)
      from Cons.IH [OF 1 Cons.prems(2) 3]
      show ?thesis using blank True by (simp add: Let_def)
    next
      case False
      show ?thesis
      proof (cases "g = []")
        case True
        have 1: "\<forall>x \<in> set [?b]. x \<noteq> []" using b by simp
        have 3: "[?b] = [] \<or> well_sized limit [?b]"
          using False True by (simp add: well_sized_def)
        from Cons.IH [OF 1 Cons.prems(2) 3]
        show ?thesis using blank False True by (simp add: Let_def)
      next
        case ne: False
        then have cne: "concat g \<noteq> []"
          using concat_nonempty_iff [OF Cons.prems(1)] by simp
        have 1: "\<forall>x \<in> set [?b]. x \<noteq> []" using b by simp
        have 2: "\<forall>x \<in> set (gs @ [g]). well_sized limit x"
          using Cons.prems(2,3) ne by auto
        have 3: "[?b] = [] \<or> well_sized limit [?b]"
          by (auto simp: well_sized_def)
        from Cons.IH [OF 1 2 3]
        show ?thesis using blank False cne by (simp add: Let_def)
      qed
    qed
  qed
qed

lemma chunk_summaries_groups:
  assumes "chunk_size < int (length all_summaries)"
  shows "\<exists>groups. chunk_summaries all_summaries chunk_size = map (\<lambda>g. strip (concat g)) groups
           \<and> concat groups = serialized_blocks all_summaries
           \<and> (\<forall>g \<in> set groups. well_sized chunk_size g)"
proof -
  let ?sections = "split_sections all_summaries"
  obtain gs' g' where
    l: "chunk_loop chunk_size (hd ?sections) ?sections ([], [])
          = (map (\<lambda>g. strip (concat g)) gs', concat g')"
    and ne: "\<forall>b \<in> set g'. b \<noteq> []"
    and ws: "\<forall>x \<in> set gs'. well_sized chunk_size x"
    and wg: "g' = [] \<or> well_sized chunk_size g'"
    and cc: "concat gs' @ g' = serialized_blocks all_summaries"
    using chunk_loop_groups [of "[]" "[]" chunk_size "hd ?sections" ?sections]
    by (auto simp: serialized_blocks_def Let_def)
  show ?thesis
  proof (cases "g' = []")
    case True
    then have "chunk_summaries all_summaries chunk_size = map (\<lambda>g. strip (concat g)) gs'"
      using assms l by (simp add: chunk_summaries_def)
    then show ?thesis using True ws cc by auto
  next
    case False
    then have "concat g' \<noteq> []" using concat_nonempty_iff [OF ne] by simp
    then have "chunk_summaries all_summaries chunk_size = map (\<lambda>g. strip (concat g)) (gs' @ [g'])"
      using assms l by (simp add: chunk_summaries_def)
    moreover have "concat (gs' @ [g']) = serialized_blocks all_summaries"
      using cc by simp
    moreover have "\<forall>g \<in> set (gs' @ [g']). well_sized chunk_size g"
      using ws wg False by auto
    ultimately show ?thesis by blast
  qed
qed



lemma str_join_Cons: "str_join sep (x # xs) = x @ concat (map (\<lambda>y. sep @ y) xs)"
  by (induction xs arbitrary: x) simp_all

lemma split_sections_join: "str_join ''=== '' (split_sections s) = s"
proof (induction s rule: split_sections.induct)
  case 1
  show ?case by (simp add: split_sections.simps)
next
  case (2 c cs)
  show ?case
  proof (cases "prefix ''=== '' (c # cs)")
    case True
    then obtain r where r: "c # cs = ''=== '' @ r" by (auto simp: prefix_def)
    then have d: "drop 4 (c # cs) = r" by simp
    obtain p ps where ps: "split_sections r = p # ps"
      using split_sections_nonempty [of r] by (cases "split_sections r") auto
    have "str_join ''=== '' (split_sections (drop 4 (c # cs))) = drop 4 (c # cs)"
      using 2(1) [OF True] .
    then have "str_join ''=== '' (p # ps) = r" using d ps by simp
    moreover have "split_sections (c # cs) = [] # split_sections (drop 4 (c # cs))"
      by (simp only: split_sections.simps True if_True)
    then have "split_sections (c # cs) = [] # p # ps"
      by (simp only: d ps)
    ultimately show ?thesis using r by simp
  next
    case False
    obtain p ps where ps: "split_sections cs = p # ps"
      using split_sections_nonempty [of cs] by (cases "split_sections cs") auto
    have "str_join ''=== '' (split_sections cs) = cs" using 2(2) [OF False] .
    then have "p @ concat (map (\<lambda>y. ''=== '' @ y) ps) = cs"
      using ps by (simp add: str_join_Cons)
    moreover have "split_sections (c # cs)
                     = (case split_sections cs of [] \<Rightarrow> [[c]] | piece # pieces \<Rightarrow> (c # piece) # pieces)"
      by (simp only: split_sections.simps False if_False)
    then have "split_sections (c # cs) = (c # p) # ps"
      by (simp add: ps)
    ultimately show ?thesis by (simp add: str_join_Cons)
  qed
qed

lemma serialized_blocks_labelled:
  assumes "\<forall>s \<in> set (tl (split_sections text)). s = hd (split_sections text) \<longrightarrow> strip s = []"
  shows "serialized_blocks text
           = (if strip (hd (split_sections text)) = [] then [] else [hd (split_sections text)])
             @ map (\<lambda>s. ''=== '' @ s) (filter (\<lambda>s. strip s \<noteq> []) (tl (split_sections text)))"
proof -
  obtain p ps where ps: "split_sections text = p # ps"
    using split_sections_nonempty [of "text"] by (cases "split_sections text") auto
  have "map (section_text p) (filter (\<lambda>s. strip s \<noteq> []) ps)
          = map (\<lambda>s. ''=== '' @ s) (filter (\<lambda>s. strip s \<noteq> []) ps)"
    using assms ps by (intro map_cong) (auto simp: section_text_def)
  then show ?thesis
    using ps by (simp add: serialized_blocks_def section_text_def)
qed

lemma whitespace_Nil [simp]: "whitespace []"
  by (simp add: whitespace_def)

lemma strip_decomp:
  "\<exists>lead trail. s = lead @ strip s @ trail \<and> whitespace lead \<and> whitespace trail"
proof -
  let ?d = "dropWhile is_space s"
  have 1: "s = takeWhile is_space s @ ?d" by simp
  have r: "rev (dropWhile is_space r) @ rev (takeWhile is_space r) = rev r" for r
    by (simp flip: rev_append)
  have 2: "?d = strip s @ rev (takeWhile is_space (rev ?d))"
    unfolding strip_def using r [of "rev ?d"] by simp
  have 3: "whitespace (takeWhile is_space s)"
    unfolding whitespace_def list_all_iff by (auto dest: set_takeWhileD)
  have 4: "whitespace (rev (takeWhile is_space (rev ?d)))"
    unfolding whitespace_def list_all_iff by (auto dest: set_takeWhileD)
  have "s = takeWhile is_space s @ strip s @ rev (takeWhile is_space (rev ?d))"
    using 1 2 by metis
  then show ?thesis using 3 4 by blast
qed

lemma split_sections_pieces_free:
  "s \<in> set (split_sections t) \<Longrightarrow> \<not> sublist ''=== '' s"
proof (induction t arbitrary: s rule: split_sections.induct)
  case 1
  then show ?case by (simp add: split_sections.simps)
next
  case (2 c cs)
  note IH = "2.IH" and prems = "2.prems"
  show ?case
  proof (cases "prefix ''=== '' (c # cs)")
    case True
    have "split_sections (c # cs) = [] # split_sections (drop 4 (c # cs))"
      by (simp only: split_sections.simps True if_True)
    then have "s = [] \<or> s \<in> set (split_sections (drop 4 (c # cs)))"
      using prems by auto
    then show ?thesis using IH(1) [OF True] by auto
  next
    case False
    obtain p ps where ps: "split_sections cs = p # ps"
      using split_sections_nonempty [of cs] by (cases "split_sections cs") auto
    have "split_sections (c # cs)
            = (case split_sections cs of [] \<Rightarrow> [[c]] | piece # pieces \<Rightarrow> (c # piece) # pieces)"
      by (simp only: split_sections.simps False if_False)
    then have sp: "split_sections (c # cs) = (c # p) # ps"
      by (simp add: ps)
    have np: "\<not> sublist ''=== '' p" and nps: "\<forall>x \<in> set ps. \<not> sublist ''=== '' x"
      using IH(2) [OF False] ps by auto
    have "cs = p @ concat (map (\<lambda>y. ''=== '' @ y) ps)"
      using split_sections_join [of cs] ps by (simp add: str_join_Cons)
    then have "c # cs = (c # p) @ concat (map (\<lambda>y. ''=== '' @ y) ps)" by simp
    then have "prefix (c # p) (c # cs)" by (metis prefixI)
    then have "\<not> prefix ''=== '' (c # p)"
      using False by (meson prefix_order.order_trans)
    then have "\<not> sublist ''=== '' (c # p)"
      using np by (simp add: sublist_Cons_right)
    then show ?thesis using prems sp nps by auto
  qed
qed

lemma pieces_of_groups:
  "\<exists>pieces. map (\<lambda>(lead, chunk, trail). chunk) pieces = map (\<lambda>g. strip (concat g)) groups
     \<and> list_all (\<lambda>(lead, chunk, trail). whitespace lead \<and> whitespace trail) pieces
     \<and> map (\<lambda>(lead, chunk, trail). lead @ chunk @ trail) pieces = map concat groups"
proof (induction groups)
  case Nil
  then show ?case by simp
next
  case (Cons g gs)
  then obtain pieces where p:
    "map (\<lambda>(lead, chunk, trail). chunk) pieces = map (\<lambda>g. strip (concat g)) gs"
    "list_all (\<lambda>(lead, chunk, trail). whitespace lead \<and> whitespace trail) pieces"
    "map (\<lambda>(lead, chunk, trail). lead @ chunk @ trail) pieces = map concat gs"
    by blast
  obtain lead trail where d: "concat g = lead @ strip (concat g) @ trail"
    "whitespace lead" "whitespace trail"
    using strip_decomp [of "concat g"] by blast
  let ?pieces = "(lead, strip (concat g), trail) # pieces"
  have "map (\<lambda>(lead, chunk, trail). chunk) ?pieces = map (\<lambda>g. strip (concat g)) (g # gs)"
    using p(1) by simp
  moreover have "list_all (\<lambda>(lead, chunk, trail). whitespace lead \<and> whitespace trail) ?pieces"
    using p(2) d(2,3) by simp
  moreover have "map (\<lambda>(lead, chunk, trail). lead @ chunk @ trail) ?pieces = map concat (g # gs)"
    using p(3) d(1) by simp
  ultimately show ?case by blast
qed

subsection \<open>Size of the chunks\<close>




subsection \<open>Content of the chunks\<close>

text \<open>
  Claim C1, as stated, fails: the text \<open>ab === cd\<close> with limit 5 is packed into the
  chunks \<open>ab\<close> and \<open>=== cd\<close>, each chunk being stripped when it is emitted, and their
  concatenation has lost the space that ends the first block.
\<close>

theorem packing_not_lossless_counterexample:
  "chunk_summaries ''ab === cd'' 5 = [''ab'', ''=== cd'']
   \<and> concat (chunk_summaries ''ab === cd'' 5) \<noteq> ''ab === cd''"
  by (simp add: chunk_summaries_def split_sections.simps section_text_def strip_def is_space_def)

text \<open>
  Claim C1, amended. A text within the limit is returned unchanged as the only chunk.
  For a longer text, packing loses nothing but whitespace at the ends of the chunks and
  the sections that hold whitespace only: the chunks, taken in order and each put back
  between a whitespace-only lead and a whitespace-only trail, concatenate to exactly the
  concatenation of the sections that hold more than whitespace, each section after the
  first with its \<open>=== \<close> marker, in order; and when no section after the first holds
  whitespace only, they concatenate, after a whitespace-only prefix, to exactly the input
  text. So no character is added or reordered and no character inside a chunk is dropped.
  Both hold for the texts in which no later section with more than whitespace repeats the
  text of the first section. The sections are the pieces of the text between its
  \<open>=== \<close> markers: joined by the marker they give the text, and none contains the
  marker.
\<close>

theorem packing_lossless_except_chunk_ends:
  "(int (length text) \<le> limit \<longrightarrow> chunk_summaries text limit = [text])
   \<and> str_join ''=== '' (split_sections text) = text
   \<and> list_all (\<lambda>s. \<not> sublist ''=== '' s) (split_sections text)
   \<and> (limit < int (length text)
        \<and> (\<forall>s \<in> set (tl (split_sections text)). s = hd (split_sections text) \<longrightarrow> strip s = [])
      \<longrightarrow> (\<exists>pieces.
             chunk_summaries text limit = map (\<lambda>(lead, chunk, trail). chunk) pieces
             \<and> list_all (\<lambda>(lead, chunk, trail). whitespace lead \<and> whitespace trail) pieces
             \<and> concat (map (\<lambda>(lead, chunk, trail). lead @ chunk @ trail) pieces)
                 = concat ((if strip (hd (split_sections text)) = [] then []
                            else [hd (split_sections text)])
                           @ map (\<lambda>s. ''=== '' @ s)
                               (filter (\<lambda>s. strip s \<noteq> []) (tl (split_sections text))))))
   \<and> (limit < int (length text)
        \<and> (\<forall>s \<in> set (tl (split_sections text)). s \<noteq> hd (split_sections text) \<and> strip s \<noteq> [])
      \<longrightarrow> (\<exists>w pieces.
             whitespace w
             \<and> chunk_summaries text limit = map (\<lambda>(lead, chunk, trail). chunk) pieces
             \<and> list_all (\<lambda>(lead, chunk, trail). whitespace lead \<and> whitespace trail) pieces
             \<and> text = w @ concat (map (\<lambda>(lead, chunk, trail). lead @ chunk @ trail) pieces)))"
proof -
  let ?ss = "split_sections text"
  let ?kept = "(if strip (hd ?ss) = [] then [] else [hd ?ss])
               @ map (\<lambda>s. ''=== '' @ s) (filter (\<lambda>s. strip s \<noteq> []) (tl ?ss))"
  have c: "int (length text) \<le> limit \<longrightarrow> chunk_summaries text limit = [text]"
    by (simp add: chunk_summaries_def)
  have j: "str_join ''=== '' ?ss = text"
    by (rule split_sections_join)
  have f: "list_all (\<lambda>s. \<not> sublist ''=== '' s) ?ss"
    unfolding list_all_iff using split_sections_pieces_free by blast
  have a: "\<exists>pieces.
             chunk_summaries text limit = map (\<lambda>(lead, chunk, trail). chunk) pieces
             \<and> list_all (\<lambda>(lead, chunk, trail). whitespace lead \<and> whitespace trail) pieces
             \<and> concat (map (\<lambda>(lead, chunk, trail). lead @ chunk @ trail) pieces) = concat ?kept"
    if big: "limit < int (length text)"
      and h1: "\<forall>s \<in> set (tl ?ss). s = hd ?ss \<longrightarrow> strip s = []"
  proof -
    from chunk_summaries_groups [OF big]
    obtain groups where g: "chunk_summaries text limit = map (\<lambda>g. strip (concat g)) groups"
      and cg: "concat groups = serialized_blocks text"
      by blast
    obtain pieces where p:
      "map (\<lambda>(lead, chunk, trail). chunk) pieces = map (\<lambda>g. strip (concat g)) groups"
      "list_all (\<lambda>(lead, chunk, trail). whitespace lead \<and> whitespace trail) pieces"
      "map (\<lambda>(lead, chunk, trail). lead @ chunk @ trail) pieces = map concat groups"
      using pieces_of_groups by blast
    have "concat (map (\<lambda>(lead, chunk, trail). lead @ chunk @ trail) pieces)
            = concat (concat groups)"
      unfolding p(3) by (induction groups) simp_all
    also have "\<dots> = concat ?kept"
      unfolding cg serialized_blocks_labelled [OF h1] ..
    finally have e: "concat (map (\<lambda>(lead, chunk, trail). lead @ chunk @ trail) pieces)
                       = concat ?kept" .
    have 1: "chunk_summaries text limit = map (\<lambda>(lead, chunk, trail). chunk) pieces"
      unfolding g p(1) ..
    from 1 p(2) e show ?thesis by blast
  qed
  have b: "\<exists>w pieces.
             whitespace w
             \<and> chunk_summaries text limit = map (\<lambda>(lead, chunk, trail). chunk) pieces
             \<and> list_all (\<lambda>(lead, chunk, trail). whitespace lead \<and> whitespace trail) pieces
             \<and> text = w @ concat (map (\<lambda>(lead, chunk, trail). lead @ chunk @ trail) pieces)"
    if big: "limit < int (length text)"
      and h2: "\<forall>s \<in> set (tl ?ss). s \<noteq> hd ?ss \<and> strip s \<noteq> []"
  proof -
    have h1: "\<forall>s \<in> set (tl ?ss). s = hd ?ss \<longrightarrow> strip s = []" using h2 by blast
    obtain pieces where p:
      "chunk_summaries text limit = map (\<lambda>(lead, chunk, trail). chunk) pieces"
      "list_all (\<lambda>(lead, chunk, trail). whitespace lead \<and> whitespace trail) pieces"
      "concat (map (\<lambda>(lead, chunk, trail). lead @ chunk @ trail) pieces) = concat ?kept"
      using a [OF big h1] by blast
    have fl: "filter (\<lambda>s. strip s \<noteq> []) (tl ?ss) = tl ?ss" using h2 by (simp add: filter_id_conv)
    obtain q qs where qs: "?ss = q # qs"
      using split_sections_nonempty [of "text"] by (cases ?ss) auto
    have t: "text = q @ concat (map (\<lambda>y. ''=== '' @ y) qs)"
      using j qs by (simp add: str_join_Cons)
    let ?w = "if strip q = [] then q else []"
    have "whitespace ?w"
      by (simp add: whitespace_def list_all_iff strip_empty_iff)
    moreover have "text = ?w @ concat ?kept"
      using t fl qs by simp
    ultimately show ?thesis using p by metis
  qed
  show ?thesis using c j f a b by blast
qed

theorem packing_lossless_except_chunk_ends_witness:
  "\<exists>w pieces. whitespace w
     \<and> chunk_summaries ''ab === cd'' 5 = map (\<lambda>(lead, chunk, trail). chunk) pieces
     \<and> list_all (\<lambda>(lead, chunk, trail). whitespace lead \<and> whitespace trail) pieces
     \<and> ''ab === cd'' = w @ concat (map (\<lambda>(lead, chunk, trail). lead @ chunk @ trail) pieces)"
  using packing_lossless_except_chunk_ends [of "''ab === cd''" 5]
  by (simp add: split_sections.simps strip_def is_space_def)

section \<open>Properties of the segmenter\<close>

subsection \<open>Dictionaries\<close>

lemma dict_set_keys:
  "map fst (dict_set k v d) = (if k \<in> fst ` set d then map fst d else map fst d @ [k])"
  by (induction d) force+

lemma dict_set_absent: "k \<notin> fst ` set d \<Longrightarrow> dict_set k v d = d @ [(k, v)]"
  by (induction d) auto

lemma dict_set_distinct: "distinct (map fst d) \<Longrightarrow> distinct (map fst (dict_set k v d))"
  by (simp add: dict_set_keys)

lemma dict_set_map_of: "map_of (dict_set k v d) = (map_of d)(k \<mapsto> v)"
  by (induction d) (auto simp: fun_eq_iff)

lemma dict_set_nonempty: "dict_set k v d \<noteq> []"
  by (cases d) (auto split: if_splits)

lemma items_loop_nonempty: "ms \<noteq> [] \<or> items \<noteq> [] \<Longrightarrow> items_loop part_text ms items \<noteq> []"
  by (induction ms arbitrary: items) (auto simp: dict_set_nonempty)

subsection \<open>The parts of the hierarchy\<close>

lemma parts_loop_char:
  "distinct ps \<Longrightarrow> set ps \<inter> fst ` set parsed = {} \<Longrightarrow>
     parts_loop blocks ps parsed
       = parsed @ map (\<lambda>p. (p, items_of blocks p)) (filter (has_items blocks) ps)"
proof (induction ps arbitrary: parsed)
  case Nil
  then show ?case by simp
next
  case (Cons p ps)
  show ?case
  proof (cases "has_items blocks p")
    case False
    then show ?thesis using Cons by (auto simp: has_items_def Let_def split: option.splits)
  next
    case True
    then obtain pt where pt: "blocks p = Some pt" "finditer items_pattern pt \<noteq> []"
      by (auto simp: has_items_def split: option.splits)
    let ?parsed = "parsed @ [(p, items_of blocks p)]"
    have a: "dict_set p (items_of blocks p) parsed = ?parsed"
      using Cons.prems by (intro dict_set_absent) auto
    have d: "distinct ps" and i: "set ps \<inter> fst ` set ?parsed = {}"
      using Cons.prems by auto
    show ?thesis
      using Cons.IH [OF d i] True pt a by (simp add: Let_def items_of_def)
  qed
qed

lemma parse_char:
  "parse_10k_parts_and_items text
     = map (\<lambda>p. (p, items_of (part_blocks text) p)) (filter (has_items (part_blocks text)) valid_order)"
proof -
  have "distinct valid_order" by (simp add: valid_order_def)
  then show ?thesis
    unfolding parse_10k_parts_and_items_def by (subst parts_loop_char) simp_all
qed

text \<open>
  Claim C3. The labels of the hierarchy are exactly the labels of \<open>valid_order\<close> that
  have a slice in \<open>part_blocks\<close> with at least one match of the Item pattern, and they
  stand in the order of \<open>valid_order\<close> (PART I, II, III, IV), whatever the order of the
  Part headers in the text; no part of the hierarchy has an empty item dictionary.
\<close>

theorem hierarchy_parts:
  "map fst (parse_10k_parts_and_items text)
     = filter (\<lambda>part. case part_blocks text part of
                        None \<Rightarrow> False
                      | Some part_text \<Rightarrow> finditer items_pattern part_text \<noteq> []) valid_order
   \<and> (\<forall>(part, items) \<in> set (parse_10k_parts_and_items text). items \<noteq> [])"
proof -
  have "items_of (part_blocks text) p \<noteq> []" if "has_items (part_blocks text) p" for p
    using that items_loop_nonempty [of "finditer items_pattern (the (part_blocks text p))" "[]"]
    unfolding items_of_def has_items_def
    by (auto split: option.splits)
  then show ?thesis
    unfolding parse_char by (auto simp: comp_def has_items_def [abs_def])
qed

theorem hierarchy_parts_witness:
  "map fst (parse_10k_parts_and_items
      ''PART III\<newline>none\<newline>PART II\<newline>Item 5. M\<newline>m\<newline>PART I\<newline>Item 1. A\<newline>a'')
     = [''PART I'', ''PART II'']"
proof -
  let ?t = "''PART III\<newline>none\<newline>PART II\<newline>Item 5. M\<newline>m\<newline>PART I\<newline>Item 1. A\<newline>a''"
  have e: "filter (\<lambda>part. case part_blocks ?t part of
                        None \<Rightarrow> False
                      | Some part_text \<Rightarrow> finditer items_pattern part_text \<noteq> []) valid_order
            = [''PART I'', ''PART II'']"
    by code_simp
  show ?thesis
    using hierarchy_parts [of ?t] unfolding e by simp
qed

subsection \<open>A Part label that occurs more than once\<close>

lemma slice_parts_absent: "label \<notin> fst ` set ys \<Longrightarrow> slice_parts text ys m label = m label"
  by (induction ys arbitrary: m) (auto simp: Let_def)

lemma slice_parts_last:
  "label \<in> set valid_order \<Longrightarrow> label \<notin> fst ` set ys \<Longrightarrow>
     slice_parts text (xs @ (label, start) # ys) m label
       = Some (slice text start (case ys of [] \<Rightarrow> length text | (_, next_start) # _ \<Rightarrow> next_start))"
proof (induction xs arbitrary: m)
  case Nil
  then show ?case by (simp add: slice_parts_absent Let_def)
next
  case (Cons x xs)
  obtain t s where x: "x = (t, s)" by (cases x)
  show ?case using Cons x by (simp add: Let_def)
qed

text \<open>
  Claim C2, as stated, fails. In this text the header \<open>PART I\<close> matches at offsets 0
  and 19; the slice stored for it begins at offset 19, at the second occurrence, and the
  item of the first occurrence is not in the hierarchy.
\<close>

theorem first_occurrence_counterexample:
  "raw_parts ''PART I\<newline>Item 1. A\<newline>x\<newline>PART I\<newline>Item 2. B\<newline>y''
     = [(''PART I'', 0), (''PART I'', 19)]
   \<and> part_blocks ''PART I\<newline>Item 1. A\<newline>x\<newline>PART I\<newline>Item 2. B\<newline>y'' ''PART I''
     = Some (slice ''PART I\<newline>Item 1. A\<newline>x\<newline>PART I\<newline>Item 2. B\<newline>y'' 19 37)
   \<and> part_blocks ''PART I\<newline>Item 1. A\<newline>x\<newline>PART I\<newline>Item 2. B\<newline>y'' ''PART I''
     \<noteq> Some (slice ''PART I\<newline>Item 1. A\<newline>x\<newline>PART I\<newline>Item 2. B\<newline>y'' 0 19)
   \<and> parse_10k_parts_and_items ''PART I\<newline>Item 1. A\<newline>x\<newline>PART I\<newline>Item 2. B\<newline>y''
     = [(''PART I'', [(''Item 2. B'', ''y'')])]"
  by code_simp

text \<open>
  Claim C2, amended. When a canonical Part label matches more than once, the slice of the
  part is built from the last occurrence of the label: it runs from the start of that
  match to the start of the Part header that follows it, or to the end of the text, and
  the items of the part in the hierarchy are those found in this slice. (The statement
  covers a label that occurs once as well: \<open>before\<close> may hold the label or not.)
\<close>

theorem last_occurrence_wins:
  assumes "raw_parts text = before @ (label, start) # after"
    and "label \<in> set valid_order"
    and "label \<notin> fst ` set after"
  shows "part_blocks text label
           = Some (slice text start
                     (case after of [] \<Rightarrow> length text | (_, next_start) # _ \<Rightarrow> next_start))
         \<and> (\<forall>items. (label, items) \<in> set (parse_10k_parts_and_items text) \<longrightarrow>
               items = items_of (part_blocks text) label)"
proof -
  have "part_blocks text label
           = Some (slice text start
                     (case after of [] \<Rightarrow> length text | (_, next_start) # _ \<Rightarrow> next_start))"
    using slice_parts_last [OF assms(2,3)] assms(1) by (simp add: part_blocks_def)
  moreover have "\<forall>items. (label, items) \<in> set (parse_10k_parts_and_items text) \<longrightarrow>
               items = items_of (part_blocks text) label"
    unfolding parse_char by auto
  ultimately show ?thesis by blast
qed

theorem last_occurrence_wins_witness:
  "part_blocks ''PART I\<newline>Item 1. A\<newline>x\<newline>PART I\<newline>Item 2. B\<newline>y\<newline>PART II'' ''PART I''
     = Some ''PART I\<newline>Item 2. B\<newline>y\<newline>''"
proof -
  let ?t = "''PART I\<newline>Item 1. A\<newline>x\<newline>PART I\<newline>Item 2. B\<newline>y\<newline>PART II''"
  have r: "raw_parts ?t = [(''PART I'', 0)] @ (''PART I'', 19) # [(''PART II'', 38)]"
    by code_simp
  have v: "''PART I'' \<in> set valid_order"
    by (simp add: valid_order_def)
  have a: "''PART I'' \<notin> fst ` set [(''PART II'', 38 :: nat)]"
    by simp
  show ?thesis
    using last_occurrence_wins [OF r v a] by (simp add: slice_def)
qed

subsection \<open>Item titles\<close>

lemma sublist_strip: "sublist (strip s) s"
proof -
  have "sublist (dropWhile is_space (rev (dropWhile is_space s))) (rev (dropWhile is_space s))"
    by simp
  moreover have "sublist (rev (dropWhile is_space s)) (rev s)"
    by simp
  ultimately have "sublist (dropWhile is_space (rev (dropWhile is_space s))) (rev s)"
    by (rule sublist_order.order_trans)
  then show ?thesis
    unfolding strip_def by (simp add: sublist_rev_left)
qed

lemma sublist_Cons_rightI: "sublist xs ys \<Longrightarrow> sublist xs (y # ys)"
  by (simp add: sublist_Cons_right)

lemma dot_not_space [simp]: "\<not> is_space CHR ''.''"
  by (simp add: is_space_def)

lemma collapse_ws_hd_dot:
  "collapse_ws s = CHR ''.'' # r \<Longrightarrow> \<exists>s'. s = CHR ''.'' # s' \<and> r = collapse_ws s'"
  by (cases s) (auto split: if_splits)

lemma collapse_ws_dots: "sublist ''...'' (collapse_ws s) \<Longrightarrow> sublist ''...'' s"
proof (induction s rule: collapse_ws.induct)
  case 1
  then show ?case by simp
next
  case (2 c cs)
  note IH = "2.IH" and prems = "2.prems"
  show ?case
  proof (cases "is_space c \<and> cs \<noteq> [] \<and> is_space (hd cs)")
    case True
    then have "sublist ''...'' (CHR '' '' # collapse_ws (dropWhile is_space cs))"
      using prems by simp
    then have "sublist ''...'' (collapse_ws (dropWhile is_space cs))"
      by (simp add: sublist_Cons_right)
    then have "sublist ''...'' (dropWhile is_space cs)"
      using IH(1) True by blast
    moreover have "sublist (dropWhile is_space cs) cs" by simp
    ultimately have "sublist ''...'' cs" by (rule sublist_order.order_trans)
    then show ?thesis by (rule sublist_Cons_rightI)
  next
    case False
    then have "sublist ''...'' (c # collapse_ws cs)"
      using prems by auto
    then consider "prefix ''...'' (c # collapse_ws cs)" | "sublist ''...'' (collapse_ws cs)"
      by (auto simp: sublist_Cons_right)
    then show ?thesis
    proof cases
      case 1
      then obtain r where c: "c = CHR ''.''" and "collapse_ws cs = CHR ''.'' # CHR ''.'' # r"
        by (auto simp: prefix_def)
      then obtain s' where s': "cs = CHR ''.'' # s'" "CHR ''.'' # r = collapse_ws s'"
        using collapse_ws_hd_dot by blast
      then obtain s'' where "s' = CHR ''.'' # s''"
        using collapse_ws_hd_dot [of s' r] by auto
      then have "c # cs = ''...'' @ s''" using c s' by simp
      then show ?thesis by (metis sublist_append_rightI)
    next
      case 2
      then have "sublist ''...'' cs" using IH(2) False by blast
      then show ?thesis by (rule sublist_Cons_rightI)
    qed
  qed
qed

lemma replace_dd_hd: "replace_dd s = x # r \<Longrightarrow> \<exists>s'. s = x # s'"
  by (cases s rule: replace_dd.cases) (auto split: if_splits)

lemma replace_dd_dots: "\<not> sublist ''...'' s \<Longrightarrow> \<not> sublist ''..'' (replace_dd s)"
proof (induction s rule: replace_dd.induct)
  case (1 a b cs)
  show ?case
  proof (cases "a = CHR ''.'' \<and> b = CHR ''.''")
    case True
    have n: "\<not> sublist ''...'' cs"
      using 1(3) by (auto simp: sublist_Cons_right)
    have "\<not> prefix ''..'' (CHR ''.'' # replace_dd cs)"
    proof
      assume "prefix ''..'' (CHR ''.'' # replace_dd cs)"
      then obtain r where "replace_dd cs = CHR ''.'' # r" by (auto simp: prefix_def)
      then obtain s' where "cs = CHR ''.'' # s'" using replace_dd_hd by blast
      then have "prefix ''...'' (a # b # cs)" using True by simp
      then show False using 1(3) by (meson prefix_imp_sublist)
    qed
    then show ?thesis
      using True 1(1) n by (simp add: sublist_Cons_right)
  next
    case False
    have n: "\<not> sublist ''...'' (b # cs)"
      using 1(3) by (auto simp: sublist_Cons_right)
    have "\<not> prefix ''..'' (a # replace_dd (b # cs))"
    proof
      assume "prefix ''..'' (a # replace_dd (b # cs))"
      then obtain r where "a = CHR ''.''" "replace_dd (b # cs) = CHR ''.'' # r"
        by (auto simp: prefix_def)
      then show False using replace_dd_hd [of "b # cs" "CHR ''.''" r] False by auto
    qed
    then show ?thesis
      using False 1(2) n by (auto simp: sublist_Cons_right)
  qed
qed (auto simp: sublist_Cons_right)

lemma item_title_dots:
  assumes "\<not> sublist ''...'' (m_group m)"
  shows "\<not> sublist ''..'' (item_title m)"
proof -
  have "\<not> sublist ''...'' (strip (m_group m))"
    using assms sublist_strip sublist_order.order_trans by blast
  then have "\<not> sublist ''...'' (collapse_ws (strip (m_group m)))"
    using collapse_ws_dots by blast
  then have "\<not> sublist ''..'' (replace_dd (collapse_ws (strip (m_group m))))"
    by (rule replace_dd_dots)
  then show ?thesis
    unfolding item_title_def using sublist_strip sublist_order.order_trans by blast
qed

lemma collapse_ws_not_adjacent: "sublist [a, b] (collapse_ws s) \<Longrightarrow> is_space a \<Longrightarrow> \<not> is_space b"
proof (induction s rule: collapse_ws.induct)
  case 1
  then show ?case by simp
next
  case (2 c cs)
  note IH = "2.IH" and prems = "2.prems"
  have start: "\<not> is_space b" if "collapse_ws xs = b # r" "xs = [] \<or> \<not> is_space (hd xs)" for xs r
    using that by (cases xs) (auto split: if_splits)
  show ?case
  proof (cases "is_space c \<and> cs \<noteq> [] \<and> is_space (hd cs)")
    case True
    let ?d = "dropWhile is_space cs"
    have d: "?d = [] \<or> \<not> is_space (hd ?d)"
      using hd_dropWhile [of is_space cs] by blast
    from prems(1) True have "sublist [a, b] (CHR '' '' # collapse_ws ?d)" by simp
    then consider "prefix [a, b] (CHR '' '' # collapse_ws ?d)" | "sublist [a, b] (collapse_ws ?d)"
      by (auto simp: sublist_Cons_right)
    then show ?thesis
    proof cases
      case 1
      then obtain r where "collapse_ws ?d = b # r" by (auto simp: prefix_def)
      then show ?thesis using start d by blast
    next
      case 2
      then show ?thesis using IH(1) True prems(2) by blast
    qed
  next
    case False
    from prems(1) False have "sublist [a, b] (c # collapse_ws cs)" by auto
    then consider "prefix [a, b] (c # collapse_ws cs)" | "sublist [a, b] (collapse_ws cs)"
      by (auto simp: sublist_Cons_right)
    then show ?thesis
    proof cases
      case 1
      then obtain r where "a = c" "collapse_ws cs = b # r" by (auto simp: prefix_def)
      then show ?thesis using start [of cs r] False prems(2) by auto
    next
      case 2
      then show ?thesis using IH(2) False prems(2) by blast
    qed
  qed
qed

lemma replace_dd_adjacent:
  "sublist [a, b] (replace_dd s) \<Longrightarrow> is_space a \<Longrightarrow> is_space b \<Longrightarrow> sublist [a, b] s"
proof (induction s rule: replace_dd.induct)
  case (1 x y cs)
  note IH = "1.IH" and prems = "1.prems"
  have nd: "a \<noteq> CHR ''.''" using prems(2) by auto
  show ?case
  proof (cases "x = CHR ''.'' \<and> y = CHR ''.''")
    case True
    then have "sublist [a, b] (CHR ''.'' # replace_dd cs)" using prems(1) by simp
    moreover have "\<not> prefix [a, b] (CHR ''.'' # replace_dd cs)"
      using nd by (auto simp: prefix_def)
    ultimately have "sublist [a, b] (replace_dd cs)" by (auto simp: sublist_Cons_right)
    then have "sublist [a, b] cs" using IH(1) True prems(2,3) by blast
    then show ?thesis by (simp add: sublist_Cons_right)
  next
    case False
    then have "sublist [a, b] (x # replace_dd (y # cs))" using prems(1) by auto
    then consider "prefix [a, b] (x # replace_dd (y # cs))" | "sublist [a, b] (replace_dd (y # cs))"
      by (auto simp: sublist_Cons_right)
    then show ?thesis
    proof cases
      case 1
      then obtain r where "a = x" "replace_dd (y # cs) = b # r" by (auto simp: prefix_def)
      then have "a = x" "b = y" using replace_dd_hd [of "y # cs" b r] by auto
      then have "prefix [a, b] (x # y # cs)" by simp
      then show ?thesis by (meson prefix_imp_sublist)
    next
      case 2
      then have "sublist [a, b] (y # cs)" using IH(2) False prems(2,3) by blast
      then show ?thesis by (rule sublist_Cons_rightI)
    qed
  qed
qed simp_all

lemma item_title_not_adjacent: "\<not> adjacent_ws (item_title m)"
proof
  assume "adjacent_ws (item_title m)"
  then obtain a b where ab: "is_space a" "is_space b" "sublist [a, b] (item_title m)"
    by (auto simp: adjacent_ws_def)
  have "sublist [a, b] (replace_dd (collapse_ws (strip (m_group m))))"
    using ab(3) sublist_strip sublist_order.order_trans unfolding item_title_def by blast
  then have "sublist [a, b] (collapse_ws (strip (m_group m)))"
    using ab(1,2) by (rule replace_dd_adjacent)
  then show False using collapse_ws_not_adjacent ab(1,2) by blast
qed

lemma last_dropWhile: "dropWhile P xs \<noteq> [] \<Longrightarrow> last (dropWhile P xs) = last xs"
  by (induction xs) (auto split: if_splits)

lemma strip_ends:
  assumes "strip s \<noteq> []"
  shows "\<not> is_space (hd (strip s)) \<and> \<not> is_space (last (strip s))"
proof -
  let ?d = "dropWhile is_space s"
  let ?e = "dropWhile is_space (rev ?d)"
  have e: "?e \<noteq> []" using assms by (simp add: strip_def)
  have d: "?d \<noteq> []"
  proof
    assume "?d = []"
    then have "?e = []" by (simp only: rev.simps dropWhile.simps)
    then show False using e by blast
  qed
  have "last (strip s) = hd ?e" unfolding strip_def using e by (simp add: last_rev)
  moreover have "\<not> is_space (hd ?e)" using e hd_dropWhile by blast
  moreover have "hd (strip s) = last ?e" unfolding strip_def using e by (simp add: hd_rev)
  moreover have "last ?e = last (rev ?d)" using e by (rule last_dropWhile)
  moreover have "last (rev ?d) = hd ?d" using d by (simp add: last_rev)
  moreover have "\<not> is_space (hd ?d)" using d hd_dropWhile by blast
  ultimately show ?thesis by simp
qed

lemma dict_set_key_set: "fst ` set (dict_set k v d) = insert k (fst ` set d)"
proof -
  have "set (map fst (dict_set k v d)) = insert k (set (map fst d))"
    unfolding dict_set_keys by auto
  then show ?thesis by simp
qed

lemma items_loop_keys:
  "fst ` set (items_loop part_text ms d) = fst ` set d \<union> item_title ` set ms"
  by (induction ms arbitrary: d) (auto simp: dict_set_key_set)

lemma items_loop_entries_keys:
  "fst ` set (items_loop part_text ms d) = fst ` set d \<union> fst ` set (item_entries part_text ms)"
  by (induction ms arbitrary: d) (auto simp: dict_set_key_set)

lemma parse_member:
  assumes "part \<in> set valid_order"
    and "part_blocks text part = Some part_text"
    and "finditer items_pattern part_text \<noteq> []"
  shows "(part, items_loop part_text (finditer items_pattern part_text) [])
           \<in> set (parse_10k_parts_and_items text)"
proof -
  have "has_items (part_blocks text) part"
    using assms(2,3) by (simp add: has_items_def)
  moreover have "items_of (part_blocks text) part
                   = items_loop part_text (finditer items_pattern part_text) []"
    using assms(2) by (simp add: items_of_def)
  ultimately show ?thesis
    unfolding parse_char using assms(1) by force
qed

text \<open>
  Claim C9. The emitted title is the matched title stripped, with every run of two or
  more whitespace characters replaced by one space, and it is meant to hold no two
  consecutive dots (the source line is commented \<open>remove weird spacing or extra dots\<close>).
  The code misses that for a run of three or more dots: \<open>replace('..', '.')\<close> makes a
  single pass over the non-overlapping occurrences, so three dots become two. For the
  header \<open>Item 1. Business...\<close> the emitted title is \<open>Item 1. Business..\<close>, which
  contains two consecutive dots.
\<close>

theorem item_title_keeps_two_dots:
  "parse_10k_parts_and_items ''PART I\<newline>Item 1. Business...\<newline>We sell widgets.''
     = [(''PART I'', [(''Item 1. Business..'', ''We sell widgets.'')])]
   \<and> sublist ''..'' ''Item 1. Business..''"
  by code_simp

text \<open>
  The extent of the defect. For every item header matched in the slice of a part, the
  hierarchy has under that part an entry with the normalized title; that title has no
  whitespace at either end and no two adjacent whitespace characters, and it has no two
  consecutive dots whenever the matched title has no three consecutive dots.
\<close>

lemma item_title_normalized:
  assumes "part \<in> set valid_order"
    and "part_blocks text part = Some part_text"
    and "m \<in> set (finditer items_pattern part_text)"
  shows "(\<exists>items. (part, items) \<in> set (parse_10k_parts_and_items text)
            \<and> item_title m \<in> fst ` set items)
         \<and> item_title m = strip (replace_dd (collapse_ws (strip (m_group m))))
         \<and> (item_title m \<noteq> [] \<longrightarrow>
               \<not> is_space (hd (item_title m)) \<and> \<not> is_space (last (item_title m)))
         \<and> \<not> adjacent_ws (item_title m)
         \<and> (\<not> sublist ''...'' (m_group m) \<longrightarrow> \<not> sublist ''..'' (item_title m))"
proof -
  let ?ms = "finditer items_pattern part_text"
  have ne: "?ms \<noteq> []" using assms(3) by auto
  have "(part, items_loop part_text ?ms []) \<in> set (parse_10k_parts_and_items text)"
    using parse_member [OF assms(1,2) ne] .
  moreover have "item_title m \<in> fst ` set (items_loop part_text ?ms [])"
    using assms(3) by (simp add: items_loop_keys)
  ultimately have 1: "\<exists>items. (part, items) \<in> set (parse_10k_parts_and_items text)
            \<and> item_title m \<in> fst ` set items"
    by blast
  have 2: "item_title m \<noteq> [] \<longrightarrow>
               \<not> is_space (hd (item_title m)) \<and> \<not> is_space (last (item_title m))"
    unfolding item_title_def using strip_ends by blast
  show ?thesis
    using 1 2 item_title_not_adjacent item_title_dots by (simp add: item_title_def)
qed

lemma item_title_normalized_example:
  "item_title \<lparr>m_start = 7, m_end = 21, m_group = ''Item 1.  A..B''\<rparr> = ''Item 1. A.B''
   \<and> \<not> sublist ''..'' (item_title \<lparr>m_start = 7, m_end = 21, m_group = ''Item 1.  A..B''\<rparr>)
   \<and> (\<exists>items. (''PART I'', items) \<in> set (parse_10k_parts_and_items ''PART I\<newline>\<newline>Item 1.  A..B\<newline>x'')
         \<and> item_title \<lparr>m_start = 7, m_end = 21, m_group = ''Item 1.  A..B''\<rparr> \<in> fst ` set items)"
proof -
  let ?t = "''PART I\<newline>\<newline>Item 1.  A..B\<newline>x''"
  let ?m = "\<lparr>m_start = 7, m_end = 21, m_group = ''Item 1.  A..B''\<rparr>"
  have v: "''PART I'' \<in> set valid_order"
    by (simp add: valid_order_def)
  have b: "part_blocks ?t ''PART I'' = Some ?t"
    by code_simp
  have f: "finditer items_pattern ?t = [?m]"
    by code_simp
  have m: "?m \<in> set (finditer items_pattern ?t)"
    unfolding f by simp
  have d: "\<not> sublist ''...'' (m_group ?m)"
    by code_simp
  have e: "strip (replace_dd (collapse_ws (strip (m_group ?m)))) = ''Item 1. A.B''"
    by code_simp
  note r = item_title_normalized [OF v b m]
  from r have t: "item_title ?m = ''Item 1. A.B''"
    unfolding e by blast
  from r d have n: "\<not> sublist ''..'' (item_title ?m)"
    by blast
  from r have "\<exists>items. (''PART I'', items) \<in> set (parse_10k_parts_and_items ?t)
         \<and> item_title ?m \<in> fst ` set items"
    by blast
  then show ?thesis
    using t n by blast
qed

subsection \<open>Item headers with the same title\<close>

lemma length_item_entries: "length (item_entries part_text ms) = length ms"
  by (induction ms) auto

lemma items_loop_distinct:
  "distinct (map fst d) \<Longrightarrow> distinct (map fst (items_loop part_text ms d))"
  by (induction ms arbitrary: d) (auto simp: dict_set_distinct)

lemma items_loop_map_of:
  "map_of (items_loop part_text ms d) = map_of d ++ map_of (rev (item_entries part_text ms))"
proof (induction ms arbitrary: d)
  case Nil
  then show ?case by simp
next
  case (Cons m rest)
  let ?t = "item_title m" and ?c = "item_content part_text m rest"
  have "map_of (items_loop part_text (m # rest) d)
          = map_of (dict_set ?t ?c d) ++ map_of (rev (item_entries part_text rest))"
    using Cons [of "dict_set ?t ?c d"] by (simp only: items_loop.simps)
  also have "\<dots> = (map_of d)(?t \<mapsto> ?c) ++ map_of (rev (item_entries part_text rest))"
    by (simp only: dict_set_map_of)
  also have "\<dots> = map_of d ++ ([?t \<mapsto> ?c] ++ map_of (rev (item_entries part_text rest)))"
    by (auto simp: map_add_def fun_eq_iff split: option.splits)
  also have "\<dots> = map_of d ++ map_of (rev (item_entries part_text (m # rest)))"
    by (auto simp: map_add_def fun_eq_iff split: option.splits)
  finally show ?case .
qed

lemma map_of_last_entry:
  assumes "title \<notin> fst ` set after"
  shows "map_of (rev (before @ (title, content) # after)) title = Some content"
proof -
  have "map_of (rev after) title = None"
    using assms by (simp add: map_of_eq_None_iff)
  then show ?thesis
    by (simp add: map_add_def)
qed

text \<open>
  Claim C10. In the slice of a part, let a header be the last one, in document order,
  whose normalized title is \<open>title\<close>, let \<open>content\<close> be its content slice, and let an
  earlier header have the same normalized title. Then the item dictionary of the part
  has distinct titles, its one entry for \<open>title\<close> holds \<open>content\<close> (no entry holds the
  content of an earlier header under that title), and it has fewer entries than the
  slice has item-header matches.
\<close>

theorem duplicate_title_last_wins:
  assumes "part \<in> set valid_order"
    and "part_blocks text part = Some part_text"
    and "item_entries part_text (finditer items_pattern part_text)
           = before @ (title, content) # after"
    and "title \<in> fst ` set before"
    and "title \<notin> fst ` set after"
  shows "\<exists>items. (part, items) \<in> set (parse_10k_parts_and_items text)
           \<and> distinct (map fst items)
           \<and> (title, content) \<in> set items
           \<and> (\<forall>c. (title, c) \<in> set items \<longrightarrow> c = content)
           \<and> length items < length (finditer items_pattern part_text)"
proof -
  let ?ms = "finditer items_pattern part_text"
  let ?items = "items_loop part_text ?ms []"
  have ne: "?ms \<noteq> []" using assms(3) by auto
  have 1: "(part, ?items) \<in> set (parse_10k_parts_and_items text)"
    using parse_member [OF assms(1,2) ne] .
  have 2: "distinct (map fst ?items)"
    by (rule items_loop_distinct) simp
  have "map_of ?items title = Some content"
    using map_of_last_entry [OF assms(5), of before content]
    by (simp add: items_loop_map_of assms(3))
  then have 3: "(title, content) \<in> set ?items"
    by (rule map_of_SomeD)
  have 4: "\<forall>c. (title, c) \<in> set ?items \<longrightarrow> c = content"
    using 2 3 by (meson eq_key_imp_eq_value)
  have keys: "fst ` set ?items = fst ` set (before @ after)"
    using assms(4) by (auto simp: items_loop_entries_keys assms(3))
  have "length ?items = card (fst ` set ?items)"
    using 2 by (metis distinct_card length_map list.set_map)
  also have "\<dots> \<le> length (before @ after)"
    unfolding keys by (metis card_length length_map list.set_map)
  also have "\<dots> < length (item_entries part_text ?ms)"
    unfolding assms(3) by simp
  finally have 5: "length ?items < length ?ms"
    by (simp add: length_item_entries)
  show ?thesis using 1 2 3 4 5 by blast
qed

theorem duplicate_title_last_wins_witness:
  "\<exists>items. (''PART I'', items)
             \<in> set (parse_10k_parts_and_items ''PART I\<newline>Item 1. A\<newline>x\<newline>Item 1.  A\<newline>y'')
     \<and> distinct (map fst items) \<and> (''Item 1. A'', ''y'') \<in> set items \<and> length items < 2"
proof -
  let ?t = "''PART I\<newline>Item 1. A\<newline>x\<newline>Item 1.  A\<newline>y''"
  have v: "''PART I'' \<in> set valid_order"
    by (simp add: valid_order_def)
  have b: "part_blocks ?t ''PART I'' = Some ?t"
    by code_simp
  have e: "item_entries ?t (finditer items_pattern ?t)
             = [(''Item 1. A'', ''x'')] @ (''Item 1. A'', ''y'') # []"
    by code_simp
  have l: "length (finditer items_pattern ?t) = 2"
    by code_simp
  have i: "''Item 1. A'' \<in> fst ` set [(''Item 1. A'', ''x'')]"
    by simp
  have a: "''Item 1. A'' \<notin> fst ` set ([] :: (string \<times> string) list)"
    by simp
  show ?thesis
    using duplicate_title_last_wins [OF v b e i a] unfolding l by blast
qed

section \<open>Properties of the reasoning pipeline\<close>

subsection \<open>Auxiliary facts\<close>

lemma unavailable_nonempty: "unavailable i \<noteq> []"
  by (simp add: unavailable_def)

lemma is_space_simps [simp]:
  "is_space CHR '' ''" "\<not> is_space CHR ''a''" "\<not> is_space CHR ''b''" "\<not> is_space CHR ''=''"
  by (simp_all add: is_space_def)

lemma str_nat_digits [simp]:
  "str_nat (Suc 0) = ''1''" "str_nat (Suc (Suc 0)) = ''2''" "str_nat 2 = ''2''"
  by (simp_all add: str_nat.simps digit_char_def numeral_2_eq_2)

lemma analyse_chunks_all_fail:
  assumes "\<forall>calls req. \<exists>e. svc calls req = Inl e"
  shows "fst (analyse_chunks svc self company n mt i chunks (as, calls))
           = as @ map (\<lambda>k. analysis_part k (unavailable k)) [i..<i + length chunks]"
proof (induction chunks arbitrary: i as calls)
  case Nil
  then show ?case by simp
next
  case (Cons chunk rest)
  obtain e where "svc calls (chunk_request self company chunk i n mt) = Inl e"
    using assms by blast
  then have g: "generate_reasoning_for_chunk svc self calls company chunk i n mt
                  = (unavailable i, calls @ [chunk_request self company chunk i n mt])"
    by (simp add: generate_reasoning_for_chunk_def)
  have "[i..<i + Suc (length rest)] = i # [Suc i..<i + Suc (length rest)]"
    by (rule upt_conv_Cons) simp
  then have "[i..<i + length (chunk # rest)] = i # [Suc i..<Suc i + length rest]"
    by simp
  then show ?case
    using Cons.IH [of "Suc i"] by (simp add: g)
qed

lemma generate_reasoning_for_chunk_calls:
  "snd (generate_reasoning_for_chunk svc self calls company chunk i n mt)
     = calls @ [chunk_request self company chunk i n mt]"
  by (simp add: generate_reasoning_for_chunk_def Let_def)

lemma generate_reasoning_for_chunk_pair:
  "generate_reasoning_for_chunk svc self calls company chunk i n mt
     = (fst (generate_reasoning_for_chunk svc self calls company chunk i n mt),
        calls @ [chunk_request self company chunk i n mt])"
  using generate_reasoning_for_chunk_calls [of svc self calls company chunk i n mt]
  by (metis prod.collapse)

lemma analyse_chunks_shape:
  "analyse_chunks svc self company n mt i chunks (as, calls) = (as', calls') \<Longrightarrow>
     length as' = length as + length chunks \<and> take (length as) as' = as
     \<and> length calls' = length calls + length chunks \<and> take (length calls) calls' = calls
     \<and> (\<forall>k < length chunks.
           as' ! (length as + k)
             = analysis_part (i + k)
                 (fst (generate_reasoning_for_chunk svc self (take (length calls + k) calls')
                         company (chunks ! k) (i + k) n mt))
           \<and> calls' ! (length calls + k) = chunk_request self company (chunks ! k) (i + k) n mt)"
proof (induction chunks arbitrary: i as calls)
  case Nil
  then show ?case by simp
next
  case (Cons chunk rest)
  let ?req = "chunk_request self company chunk i n mt"
  let ?a = "fst (generate_reasoning_for_chunk svc self calls company chunk i n mt)"
  have g: "generate_reasoning_for_chunk svc self calls company chunk i n mt = (?a, calls @ [?req])"
    by (rule generate_reasoning_for_chunk_pair)
  have "analyse_chunks svc self company n mt i (chunk # rest) (as, calls)
          = analyse_chunks svc self company n mt (Suc i) rest
              (as @ [analysis_part i ?a], calls @ [?req])"
    by (subst analyse_chunks.simps, subst g) simp
  with Cons.prems
  have r: "analyse_chunks svc self company n mt (Suc i) rest
             (as @ [analysis_part i ?a], calls @ [?req]) = (as', calls')"
    by simp
  note ih = Cons.IH [OF r]
  have len: "length as' = length as + length (chunk # rest)"
    and lenc: "length calls' = length calls + length (chunk # rest)"
    using ih by simp_all
  have tk1: "take (Suc (length as)) as' = as @ [analysis_part i ?a]"
    and tkc1: "take (Suc (length calls)) calls' = calls @ [?req]"
    using ih by simp_all
  have tk: "take (length as) as' = as"
  proof -
    have "take (length as) (take (Suc (length as)) as') = as"
      unfolding tk1 by simp
    then show ?thesis by (simp add: min_def)
  qed
  have tkc: "take (length calls) calls' = calls"
  proof -
    have "take (length calls) (take (Suc (length calls)) calls') = calls"
      unfolding tkc1 by simp
    then show ?thesis by (simp add: min_def)
  qed
  have nth0: "as' ! length as = analysis_part i ?a"
  proof -
    have "take (Suc (length as)) as' ! length as = (as @ [analysis_part i ?a]) ! length as"
      unfolding tk1 ..
    then show ?thesis by simp
  qed
  have nthc0: "calls' ! length calls = ?req"
  proof -
    have "take (Suc (length calls)) calls' ! length calls = (calls @ [?req]) ! length calls"
      unfolding tkc1 ..
    then show ?thesis by simp
  qed
  have el: "as' ! (length as + k)
             = analysis_part (i + k)
                 (fst (generate_reasoning_for_chunk svc self (take (length calls + k) calls')
                         company ((chunk # rest) ! k) (i + k) n mt))
           \<and> calls' ! (length calls + k) = chunk_request self company ((chunk # rest) ! k) (i + k) n mt"
    if "k < length (chunk # rest)" for k
  proof (cases k)
    case 0
    then show ?thesis using nth0 nthc0 tkc by simp
  next
    case (Suc j)
    then have "j < length rest" using that by simp
    then have "as' ! (length (as @ [analysis_part i ?a]) + j)
             = analysis_part (Suc i + j)
                 (fst (generate_reasoning_for_chunk svc self (take (length (calls @ [?req]) + j) calls')
                         company (rest ! j) (Suc i + j) n mt))
           \<and> calls' ! (length (calls @ [?req]) + j) = chunk_request self company (rest ! j) (Suc i + j) n mt"
      using ih by blast
    then show ?thesis using Suc by simp
  qed
  show ?case using len lenc tk tkc el by blast
qed

lemma all_fail_result:
  assumes "\<forall>calls req. \<exists>e. svc calls req = Inl e"
    and "chunk_summaries all_summaries 6000 = chunks"
    and "chunks \<noteq> []"
  shows "fst (generate_reasoning svc self company all_summaries max_tokens)
           = Inr (str_join ''\<newline>\<newline>''
                    (map (\<lambda>k. analysis_part k (unavailable k)) [1..<Suc (length chunks)]))"
proof -
  obtain as calls where a: "analyse_chunks svc self company (length chunks) max_tokens 1 chunks ([], []) = (as, calls)"
    by (cases "analyse_chunks svc self company (length chunks) max_tokens 1 chunks ([], [])")
  have as: "as = map (\<lambda>k. analysis_part k (unavailable k)) [1..<Suc (length chunks)]"
    using analyse_chunks_all_fail [OF assms(1), of self company "length chunks" max_tokens 1 chunks "[]" "[]"] a
    by simp
  show ?thesis
  proof (cases "length chunks > 1")
    case True
    obtain e where "svc calls (synthesis_request self company (str_join ''\<newline>\<newline>'' as) max_tokens) = Inl e"
      using assms(1) by blast
    then show ?thesis
      using True a assms(2) as by (simp add: generate_reasoning_def Let_def)
  next
    case False
    then have "length chunks = 1" using assms(3) by (cases chunks) auto
    then obtain c where c: "chunks = [c]" by (cases chunks) auto
    show ?thesis
      using a assms(2) as c by (simp add: generate_reasoning_def Let_def)
  qed
qed

lemma split_sections_no_marker:
  "CHR ''='' \<notin> set a \<Longrightarrow>
     split_sections (a @ rest) = (a @ hd (split_sections rest)) # tl (split_sections rest)"
proof (induction a)
  case Nil
  then show ?case using split_sections_nonempty [of rest] by simp
next
  case (Cons c a)
  then have "\<not> prefix ''=== '' (c # a @ rest)" by auto
  then show ?case using Cons by (simp add: split_sections.simps)
qed

lemma split_sections_marker: "split_sections (''=== '' @ rest) = [] # split_sections rest"
  by (simp add: split_sections.simps)

lemma chunk_summaries_blank:
  "chunk_summaries (replicate 6001 CHR '' '') 6000 = []"
proof -
  have s: "split_sections (replicate 6001 CHR '' '') = [replicate 6001 CHR '' '']"
    using split_sections_no_marker [of "replicate 6001 CHR '' ''" "[]"]
    by (simp add: split_sections.simps)
  have b: "strip (replicate 6001 CHR '' '') = []"
    by (simp add: strip_empty_iff)
  show ?thesis
    by (simp add: chunk_summaries_def s b)
qed

lemma chunk_summaries_two:
  "chunk_summaries (replicate 6000 CHR ''a'' @ ''=== b'') 6000 = [replicate 6000 CHR ''a'', ''=== b'']"
proof -
  let ?a = "replicate 6000 CHR ''a''"
  have s: "split_sections (?a @ ''=== b'') = [?a, ''b'']"
    using split_sections_no_marker [of ?a "''=== b''"] split_sections_marker [of "''b''"]
    by (simp add: split_sections.simps)
  have sa: "strip ?a = ?a"
    by (simp add: strip_def)
  have ne: "''b'' \<noteq> ?a"
  proof
    assume "''b'' = ?a"
    then have "length ''b'' = length ?a" by (rule arg_cong)
    then show False by simp
  qed
  have a0: "?a \<noteq> []"
  proof
    assume "?a = []"
    then have "length ?a = length ([] :: string)" by (rule arg_cong)
    then show False by simp
  qed
  show ?thesis
    using ne a0 by (simp add: chunk_summaries_def s sa section_text_def strip_def)
qed

subsection \<open>Runs without a chunk\<close>

text \<open>
  On a text of 6001 spaces, longer than the chunk size and all whitespace,
  \<open>chunk_summaries\<close> returns no chunk; a direct call of \<open>generate_reasoning\<close> on it
  makes no service call and raises \<open>IndexError\<close> at \<open>chunk_analyses[0]\<close>. The text
  that \<open>process_condensed_document\<close> builds is never of that kind: it is empty, or it
  contains \<open>===\<close> followed by a line feed, which no marker covers, so it always gives
  at least one chunk (\<open>caller_has_chunks\<close>).
\<close>

lemma generate_reasoning_no_chunk:
  "generate_reasoning svc self company (replicate 6001 CHR '' '') max_tokens
     = (Inl IndexError, [])"
  by (simp add: generate_reasoning_def chunk_summaries_blank)

lemma marker_shaped_Cons: "c \<noteq> CHR ''='' \<Longrightarrow> marker_shaped (c # cs) = marker_shaped cs"
  by (cases cs) auto

lemma blank_sections_marker_shaped:
  "\<forall>s \<in> set (split_sections t). strip s = [] \<Longrightarrow> marker_shaped t"
proof (induction t rule: split_sections.induct)
  case 1
  then show ?case by simp
next
  case (2 c cs)
  note IH = "2.IH" and prems = "2.prems"
  show ?case
  proof (cases "prefix ''=== '' (c # cs)")
    case True
    then obtain r where r: "c # cs = ''=== '' @ r" by (auto simp: prefix_def)
    have sp: "split_sections (c # cs) = [] # split_sections (drop 4 (c # cs))"
      by (simp only: split_sections.simps True if_True)
    have "marker_shaped (drop 4 (c # cs))"
      using IH(1) [OF True] prems unfolding sp by simp
    then have "marker_shaped r" using r by simp
    then have "marker_shaped (''=== '' @ r)"
      by (simp add: marker_shaped_Cons)
    then show ?thesis using r by simp
  next
    case False
    obtain p ps where ps: "split_sections cs = p # ps"
      using split_sections_nonempty [of cs] by (cases "split_sections cs") auto
    have "split_sections (c # cs)
            = (case split_sections cs of [] \<Rightarrow> [[c]] | piece # pieces \<Rightarrow> (c # piece) # pieces)"
      by (simp only: split_sections.simps False if_False)
    then have sp: "split_sections (c # cs) = (c # p) # ps"
      by (simp add: ps)
    have b: "strip (c # p) = []" and bs: "\<forall>s \<in> set ps. strip s = []"
      using prems unfolding sp by simp_all
    have c: "is_space c" and p: "strip p = []"
      using b by (simp_all add: strip_empty_iff)
    have "marker_shaped cs"
      using IH(2) [OF False] ps p bs by simp
    moreover have "c \<noteq> CHR ''=''"
      using c by (auto simp: is_space_def)
    ultimately show ?thesis by (simp add: marker_shaped_Cons)
  qed
qed

lemma marker_shaped_no_eq_nl: "marker_shaped t \<Longrightarrow> \<not> sublist ''=\<newline>'' t"
proof (induction t rule: marker_shaped.induct)
  case (1 a b cs)
  then show ?case by (auto simp: sublist_Cons_right)
qed (auto simp: sublist_Cons_right)

lemma nonblank_section:
  assumes "sublist ''===\<newline>'' t"
  shows "\<exists>s \<in> set (split_sections t). strip s \<noteq> []"
proof (rule ccontr)
  assume "\<not> (\<exists>s \<in> set (split_sections t). strip s \<noteq> [])"
  then have "marker_shaped t" using blank_sections_marker_shaped by blast
  then have "\<not> sublist ''=\<newline>'' t" by (rule marker_shaped_no_eq_nl)
  moreover have "sublist ''=\<newline>'' ''===\<newline>''"
    by (simp add: sublist_Cons_right)
  ultimately show False using assms sublist_order.order_trans by blast
qed

lemma chunk_summaries_nonempty:
  assumes "sublist ''===\<newline>'' t"
  shows "chunk_summaries t limit \<noteq> []"
proof (cases "limit < int (length t)")
  case False
  then show ?thesis by (simp add: chunk_summaries_def)
next
  case True
  from chunk_summaries_groups [OF True]
  obtain groups where g: "chunk_summaries t limit = map (\<lambda>g. strip (concat g)) groups"
    and c: "concat groups = serialized_blocks t"
    by blast
  obtain s where "s \<in> set (split_sections t)" "strip s \<noteq> []"
    using nonblank_section [OF assms] by blast
  then have "serialized_blocks t \<noteq> []"
    by (auto simp: serialized_blocks_def Let_def filter_empty_conv)
  then have "groups \<noteq> []" using c by auto
  then show ?thesis using g by simp
qed

lemma caller_has_chunks: "chunk_summaries (all_summaries_text parts) 6000 \<noteq> []"
proof (cases parts)
  case Nil
  then show ?thesis by (simp add: chunk_summaries_def)
next
  case (Cons p rest)
  obtain part_name items where p: "p = (part_name, items)" by (cases p)
  have "all_summaries_text parts
          = (''\<newline>\<newline>=== '' @ part_name @ '' '') @ ''===\<newline>'' @ (item_lines items @ all_summaries_text rest)"
    using Cons p by simp
  then have "sublist ''===\<newline>'' (all_summaries_text parts)"
    by (metis sublist_appendI)
  then show ?thesis by (rule chunk_summaries_nonempty)
qed


subsection \<open>Failure of the calls for the chunks\<close>



subsection \<open>Failure of the synthesis call\<close>

text \<open>
  Claim C6. In a run with more than one chunk whose synthesis call fails,
  \<open>generate_reasoning\<close> returns (and does not raise) exactly the analyses of the chunks
  joined by a blank line, each analysis being the marker \<open>=== ANALYSIS PART i ===\<close> of
  its chunk followed by the text that \<open>generate_reasoning_for_chunk\<close> gave for it (the
  response or the placeholder); there are as many analyses as chunks and no synthesis
  section follows them. The synthesis request is the last call made.
\<close>

theorem synthesis_failure_degrades:
  assumes "chunk_summaries all_summaries 6000 = chunks"
    and "length chunks > 1"
    and "analyse_chunks svc self company (length chunks) max_tokens 1 chunks ([], [])
           = (chunk_analyses, calls)"
    and "svc calls (synthesis_request self company
                      (str_join ''\<newline>\<newline>'' chunk_analyses) max_tokens) = Inl e"
  shows "generate_reasoning svc self company all_summaries max_tokens
           = (Inr (str_join ''\<newline>\<newline>'' chunk_analyses),
              calls @ [synthesis_request self company
                         (str_join ''\<newline>\<newline>'' chunk_analyses) max_tokens])
         \<and> length chunk_analyses = length chunks
         \<and> (\<forall>k < length chunks.
               chunk_analyses ! k
                 = analysis_part (Suc k)
                     (fst (generate_reasoning_for_chunk svc self (take k calls) company
                             (chunks ! k) (Suc k) (length chunks) max_tokens)))"
proof -
  have "generate_reasoning svc self company all_summaries max_tokens
           = (Inr (str_join ''\<newline>\<newline>'' chunk_analyses),
              calls @ [synthesis_request self company
                         (str_join ''\<newline>\<newline>'' chunk_analyses) max_tokens])"
    using assms by (simp add: generate_reasoning_def Let_def)
  moreover have "length chunk_analyses = length chunks
         \<and> (\<forall>k < length chunks.
               chunk_analyses ! k
                 = analysis_part (Suc k)
                     (fst (generate_reasoning_for_chunk svc self (take k calls) company
                             (chunks ! k) (Suc k) (length chunks) max_tokens)))"
    using analyse_chunks_shape [OF assms(3)] by simp
  ultimately show ?thesis by blast
qed

theorem synthesis_failure_degrades_witness:
  "generate_reasoning (failing_after 2 '' fine '' Timeout)
     default_reasoner ''ACME'' (replicate 6000 CHR ''a'' @ ''=== b'') 1000
   = (Inr (''=== ANALYSIS PART 1 ===\<newline>fine\<newline>\<newline>=== ANALYSIS PART 2 ===\<newline>fine''),
      [chunk_request default_reasoner ''ACME'' (replicate 6000 CHR ''a'') 1 2 1000,
       chunk_request default_reasoner ''ACME'' ''=== b'' 2 2 1000,
       synthesis_request default_reasoner ''ACME''
         ''=== ANALYSIS PART 1 ===\<newline>fine\<newline>\<newline>=== ANALYSIS PART 2 ===\<newline>fine'' 1000])"
proof -
  let ?svc = "failing_after 2 '' fine '' Timeout"
  let ?chunks = "[replicate 6000 CHR ''a'', ''=== b'']"
  let ?as = "[analysis_part 1 ''fine'', analysis_part 2 ''fine'']"
  let ?calls = "[chunk_request default_reasoner ''ACME'' (replicate 6000 CHR ''a'') 1 2 1000,
                 chunk_request default_reasoner ''ACME'' ''=== b'' 2 2 1000]"
  have h1: "chunk_summaries (replicate 6000 CHR ''a'' @ ''=== b'') 6000 = ?chunks"
    by (rule chunk_summaries_two)
  have h2: "length ?chunks > 1"
    by simp
  have h3: "analyse_chunks ?svc default_reasoner ''ACME'' (length ?chunks) 1000 1 ?chunks ([], [])
              = (?as, ?calls)"
    by (simp add: generate_reasoning_for_chunk_def strip_def is_space_def numeral_2_eq_2
          failing_after_def)
  have h4: "?svc ?calls (synthesis_request default_reasoner ''ACME''
              (str_join ''\<newline>\<newline>'' ?as) 1000) = Inl Timeout"
    by (simp add: failing_after_def)
  show ?thesis
    using synthesis_failure_degrades [OF h1 h2 h3 h4] by (simp add: analysis_part_def)
qed

subsection \<open>A single chunk\<close>

text \<open>
  Claim C7. When \<open>chunk_summaries\<close> yields exactly one chunk, the result of
  \<open>generate_reasoning\<close> is exactly the analysis of that chunk, as the loop stored it
  (the marker of chunk 1 and the analysis text), and the calls made are the one request
  for that chunk: no synthesis request is issued.
\<close>

theorem single_chunk_no_synthesis:
  assumes "chunk_summaries all_summaries 6000 = [chunk]"
  shows "generate_reasoning svc self company all_summaries max_tokens =
           (Inr (analysis_part 1
                   (fst (generate_reasoning_for_chunk svc self [] company chunk 1 1 max_tokens))),
            [chunk_request self company chunk 1 1 max_tokens])"
  using assms
  by (simp add: generate_reasoning_def generate_reasoning_for_chunk_def Let_def)

theorem single_chunk_no_synthesis_witness:
  "generate_reasoning (answering '' fine '') default_reasoner ''ACME'' ''=== PART I ==='' 1000
   = (Inr ''=== ANALYSIS PART 1 ===\<newline>fine'',
      [chunk_request default_reasoner ''ACME'' ''=== PART I ==='' 1 1 1000])"
proof -
  have h: "chunk_summaries ''=== PART I ==='' 6000 = [''=== PART I ==='']"
    by (simp add: chunk_summaries_def)
  show ?thesis
    using single_chunk_no_synthesis
            [OF h, of "answering '' fine ''" default_reasoner "''ACME''" 1000]
    by (simp add: generate_reasoning_for_chunk_def strip_def is_space_def analysis_part_def
          answering_def)
qed

subsection \<open>The text of a chunk analysis\<close>

text \<open>
  Claim C8, as stated, fails: a call that succeeds with a response made of whitespace
  only gives the empty analysis text, since the response is stripped and taken as it is.
\<close>

theorem chunk_analysis_empty_counterexample:
  "fst (generate_reasoning_for_chunk (answering '' '') default_reasoner []
          ''ACME'' ''=== PART I ==='' 1 1 1000) = []"
  by (simp add: generate_reasoning_for_chunk_def strip_def is_space_def answering_def)

text \<open>
  Claim C8, amended. The text of a chunk analysis is the placeholder when the call
  fails, and then it is not empty; it is the stripped response when the call succeeds,
  and then it is empty exactly when the response holds whitespace only.
\<close>

theorem chunk_analysis_text:
  "(svc calls (chunk_request self company chunk i n max_tokens) = Inl e \<longrightarrow>
      fst (generate_reasoning_for_chunk svc self calls company chunk i n max_tokens)
        = unavailable i
      \<and> fst (generate_reasoning_for_chunk svc self calls company chunk i n max_tokens) \<noteq> [])
   \<and> (svc calls (chunk_request self company chunk i n max_tokens) = Inr response \<longrightarrow>
      fst (generate_reasoning_for_chunk svc self calls company chunk i n max_tokens)
        = strip response
      \<and> (fst (generate_reasoning_for_chunk svc self calls company chunk i n max_tokens) = []
           \<longleftrightarrow> (\<forall>c \<in> set response. is_space c)))"
  by (simp add: generate_reasoning_for_chunk_def strip_empty_iff unavailable_nonempty)

theorem chunk_analysis_text_witness:
  "fst (generate_reasoning_for_chunk (failing (HTTPError 500)) default_reasoner []
          ''ACME'' ''=== PART I ==='' 2 3 1000) = ''Analysis unavailable for chunk 2''
   \<and> fst (generate_reasoning_for_chunk (answering '' fine '') default_reasoner []
          ''ACME'' ''=== PART I ==='' 2 3 1000) = ''fine''"
  using chunk_analysis_text [of "failing (HTTPError 500)" "[]" default_reasoner
          "''ACME''" "''=== PART I ===''" 2 3 1000 "HTTPError 500" "[]"]
        chunk_analysis_text [of "answering '' fine ''" "[]" default_reasoner
          "''ACME''" "''=== PART I ===''" 2 3 1000 Timeout "'' fine ''"]
  by (simp add: unavailable_def strip_def is_space_def answering_def failing_def)

end
